theory Spec2Isabelle
  imports
    Main
    "HOL-Library.Finite_Map"
    "HOL-Library.Sublist"
    "HOL-Library.Char_ord"
    "HOL-Library.List_Lexorder"
    "HOL-Library.Product_Lexorder"
begin

section \<open>The asset migration script \<^verbatim>\<open>migrate_assets.py\<close>\<close>

text \<open>
  The script turns a flat directory of images into an asset catalog. Everything it does is
  file-system traffic, so the embedding consists of a small file-system model, the string
  functions of \<^verbatim>\<open>pathlib\<close> and \<^verbatim>\<open>os.path\<close> the script relies on, and one HOL
  function per Python function, threading the file system through explicitly.
\<close>

subsection \<open>File system\<close>

text \<open>
  A location is the list of the components of a resolved absolute path; the empty list is
  the root \<^verbatim>\<open>/\<close>. Symbolic links are not part of the model, so \<^verbatim>\<open>Path.resolve()\<close>
  is the identity on locations. A file holds either raw bytes (an image) or the text that
  \<^verbatim>\<open>json.dump(v, f, indent=2)\<close> writes for a value \<open>v\<close>; the latter is represented by the
  value itself, since the text is a function of it. Python dictionaries keep insertion
  order, which is the order of the pairs of a \<open>JObj\<close>.
\<close>

type_synonym path = "string list"

datatype json = JStr string | JInt int | JArr "json list" | JObj "(string \<times> json) list"

datatype content = Blob string | JsonDoc json

datatype node = File content | Dir

type_synonym fs = "(path, node) fmap"

text \<open>
  Operating-system failures that the tree alone does not explain (permissions, a full
  disk) are injected by an oracle: each field says for which arguments the system call
  raises \<^verbatim>\<open>OSError\<close>. A call that fails leaves the tree as it was.
\<close>

record faults =
  rmtree_fails :: "path \<Rightarrow> bool"
  mkdir_fails :: "path \<Rightarrow> bool"
  write_fails :: "path \<Rightarrow> bool"
  copy_fails :: "path \<Rightarrow> path \<Rightarrow> bool"
  listdir_fails :: "path \<Rightarrow> bool"

definition no_faults :: faults where
  "no_faults = \<lparr> rmtree_fails = (\<lambda>_. False), mkdir_fails = (\<lambda>_. False),
     write_fails = (\<lambda>_. False), copy_fails = (\<lambda>_ _. False), listdir_fails = (\<lambda>_. False) \<rparr>"

definition node_at :: "fs \<Rightarrow> path \<Rightarrow> node option" where
  "node_at fs p = (if p = [] then Some Dir else fmlookup fs p)"

definition exists :: "fs \<Rightarrow> path \<Rightarrow> bool" where
  "exists fs p = (node_at fs p \<noteq> None)"

definition is_dir :: "fs \<Rightarrow> path \<Rightarrow> bool" where
  "is_dir fs p = (node_at fs p = Some Dir)"

text \<open>A tree is well formed when every entry lies in a directory.\<close>

definition wf_fs :: "fs \<Rightarrow> bool" where
  "wf_fs fs = fBall (fmdom fs) (\<lambda>p. p = [] \<or> is_dir fs (butlast p))"

text \<open>\<^verbatim>\<open>os.mkdir\<close>: the entry must be new and its parent a directory.\<close>

definition mkdir :: "faults \<Rightarrow> path \<Rightarrow> fs \<Rightarrow> bool \<times> fs" where
  "mkdir f p fs =
     (if exists fs p \<or> \<not> is_dir fs (butlast p) \<or> mkdir_fails f p then (False, fs)
      else (True, fmupd p Dir fs))"

text \<open>
  \<^verbatim>\<open>os.makedirs(name, exist_ok=True)\<close>: when the parent is missing it is created first,
  recursively; then \<^verbatim>\<open>mkdir(name)\<close> is tried, and its failure is forgiven when the name
  is a directory already. Directories created before a failure stay.
\<close>

function makedirs :: "faults \<Rightarrow> path \<Rightarrow> fs \<Rightarrow> bool \<times> fs" where
  "makedirs f p fs =
     (case (if p \<noteq> [] \<and> \<not> exists fs (butlast p) then makedirs f (butlast p) fs else (True, fs)) of
        (False, fs1) \<Rightarrow> (False, fs1)
      | (True, fs1) \<Rightarrow>
          (case mkdir f p fs1 of
             (True, fs2) \<Rightarrow> (True, fs2)
           | (False, fs2) \<Rightarrow> (is_dir fs2 p, fs2)))"
  by pat_completeness auto
termination
  by (relation "measure (\<lambda>(f, p, fs). length p)") auto

declare makedirs.simps [simp del]

text \<open>
  \<^verbatim>\<open>shutil.rmtree\<close> removes a directory with everything below it, and raises on anything
  that is not a directory.
\<close>

definition rmtree :: "faults \<Rightarrow> path \<Rightarrow> fs \<Rightarrow> bool \<times> fs" where
  "rmtree f p fs =
     (if \<not> is_dir fs p \<or> rmtree_fails f p then (False, fs)
      else (True, fmfilter (\<lambda>q. \<not> prefix p q) fs))"

text \<open>
  \<^verbatim>\<open>with open(p, "w") as h: json.dump(v, h, indent=2)\<close>: the parent must be a directory
  and \<open>p\<close> must not be one.
\<close>

definition write_file :: "faults \<Rightarrow> path \<Rightarrow> content \<Rightarrow> fs \<Rightarrow> bool \<times> fs" where
  "write_file f p c fs =
     (if p = [] \<or> \<not> is_dir fs (butlast p) \<or> is_dir fs p \<or> write_fails f p then (False, fs)
      else (True, fmupd p (File c) fs))"

text \<open>
  \<^verbatim>\<open>shutil.copy2(src, dst)\<close>: a destination that is a directory stands for the entry of
  the source's name inside it; the source must be a regular file other than the target;
  the target's parent must be a directory and the target must not be one. File metadata
  is not modelled.
\<close>

definition copy2 :: "faults \<Rightarrow> path \<Rightarrow> path \<Rightarrow> fs \<Rightarrow> bool \<times> fs" where
  "copy2 f src dst fs =
     (let target = (if is_dir fs dst then dst @ [last src] else dst) in
      case node_at fs src of
        Some (File c) \<Rightarrow>
          if src = target \<or> target = [] \<or> \<not> is_dir fs (butlast target) \<or> is_dir fs target
             \<or> copy_fails f src dst
          then (False, fs)
          else (True, fmupd target (File c) fs)
      | _ \<Rightarrow> (False, fs))"

text \<open>
  \<^verbatim>\<open>os.listdir\<close> returns the names of the entries of a directory in no particular
  order; the script only ever puts them into a set, so the model returns a finite set.
\<close>

definition listdir :: "faults \<Rightarrow> path \<Rightarrow> fs \<Rightarrow> string fset option" where
  "listdir f d fs =
     (if \<not> is_dir fs d \<or> listdir_fails f d then None
      else Some (last |`| ffilter (\<lambda>q. q \<noteq> [] \<and> butlast q = d) (fmdom fs)))"

subsection \<open>Strings and path names\<close>

text \<open>
  A name is a Python \<^verbatim>\<open>str\<close>, a sequence of code points, and a character of the model
  stands for one code point. The character type has the code points below \<^verbatim>\<open>U+0100\<close>,
  so these are the names the model covers; their order, character by character, is the
  order of the code points. \<^verbatim>\<open>str.lower\<close> is modelled on the ASCII letters, which is
  exact for the only use the script makes of it, the test of an extension: no character
  outside ASCII lowers to one of the letters of \<^verbatim>\<open>.png\<close>, \<^verbatim>\<open>.jpg\<close> or \<^verbatim>\<open>.jpeg\<close>.
\<close>

definition lower_char :: "char \<Rightarrow> char" where
  "lower_char c =
     (case map_of (zip ''ABCDEFGHIJKLMNOPQRSTUVWXYZ'' ''abcdefghijklmnopqrstuvwxyz'') c of
        Some d \<Rightarrow> d | None \<Rightarrow> c)"

definition lower :: "string \<Rightarrow> string" where
  "lower s = map lower_char s"

fun rfind_from :: "char \<Rightarrow> string \<Rightarrow> int \<Rightarrow> int \<Rightarrow> int" where
  "rfind_from c [] i found = found"
| "rfind_from c (x # xs) i found = rfind_from c xs (i + 1) (if x = c then i else found)"

text \<open>\<^verbatim>\<open>s.rfind(c)\<close>: the index of the last occurrence, or \<open>-1\<close>.\<close>

definition rfind :: "string \<Rightarrow> char \<Rightarrow> int" where
  "rfind s c = rfind_from c s 0 (- 1)"

text \<open>
  \<^verbatim>\<open>PurePath.suffix\<close> and \<^verbatim>\<open>PurePath.stem\<close> of a single name, as pathlib defines them
  up to Python 3.13: the suffix starts at the last dot unless that dot is the first or
  the last character of the name.
\<close>

definition suffix_of :: "string \<Rightarrow> string" where
  "suffix_of name =
     (let i = rfind name (CHR ''.'') in
      if 0 < i \<and> i < int (length name) - 1 then drop (nat i) name else [])"

definition stem :: "string \<Rightarrow> string" where
  "stem name =
     (let i = rfind name (CHR ''.'') in
      if 0 < i \<and> i < int (length name) - 1 then take (nat i) name else name)"

definition endswith :: "string \<Rightarrow> string \<Rightarrow> bool" where
  "endswith s t = (length t \<le> length s \<and> drop (length s - length t) s = t)"

text \<open>\<^verbatim>\<open>str(path)\<close> of a resolved absolute path.\<close>

definition str_of :: "path \<Rightarrow> string" where
  "str_of p = (if p = [] then ''/'' else concat (map (\<lambda>c. CHR ''/'' # c) p))"

definition sep :: string where
  "sep = ''/''"

fun split_from :: "char \<Rightarrow> string \<Rightarrow> string \<Rightarrow> string list" where
  "split_from c [] cur = [cur]"
| "split_from c (x # xs) cur =
     (if x = c then cur # split_from c xs [] else split_from c xs (cur @ [x]))"

text \<open>\<^verbatim>\<open>s.split(c)\<close> for a one-character separator.\<close>

definition split :: "string \<Rightarrow> char \<Rightarrow> string list" where
  "split s c = split_from c s []"

fun common_prefix :: "'a list \<Rightarrow> 'a list \<Rightarrow> 'a list" where
  "common_prefix (x # xs) (y # ys) = (if x = y then x # common_prefix xs ys else [])"
| "common_prefix _ _ = []"

fun join :: "string \<Rightarrow> string list \<Rightarrow> string" where
  "join s [] = []"
| "join s [x] = x"
| "join s (x # y # ys) = x @ s @ join s (y # ys)"

text \<open>
  \<^verbatim>\<open>os.path.commonpath\<close> of two POSIX path names. It raises \<^verbatim>\<open>ValueError\<close> (\<open>None\<close>)
  when one is absolute and the other is not; otherwise it splits both at the separator,
  drops empty and \<^verbatim>\<open>.\<close> components, takes the common prefix of the smaller and the
  larger list and joins it again.
\<close>

definition commonpath :: "string \<Rightarrow> string \<Rightarrow> string option" where
  "commonpath a b =
     (let isabs_a = (take 1 a = sep); isabs_b = (take 1 b = sep) in
      if isabs_a \<noteq> isabs_b then None
      else
        let sa = filter (\<lambda>c. c \<noteq> [] \<and> c \<noteq> ''.'') (split a (CHR ''/''));
            sb = filter (\<lambda>c. c \<noteq> [] \<and> c \<noteq> ''.'') (split b (CHR ''/''));
            s1 = min sa sb; s2 = max sa sb;
            common = common_prefix s1 s2
        in Some ((if isabs_a then sep else []) @ join sep common))"

subsection \<open>The guarded delete\<close>

text \<open>
  \<^verbatim>\<open>safe_rmtree(path, expected_parent)\<close>. The three refusals of the source are the
  three \<open>(False, fs)\<close> branches before the removal; a \<^verbatim>\<open>ValueError\<close> of
  \<^verbatim>\<open>commonpath\<close> is caught by the source and is a refusal too.
\<close>

definition safe_rmtree :: "faults \<Rightarrow> path \<Rightarrow> path \<Rightarrow> fs \<Rightarrow> bool \<times> fs" where
  "safe_rmtree f path expected_parent fs =
     (if \<not> exists fs path then (True, fs)
      else
        let path_str = str_of path in
        if path_str = [] \<or> path_str \<in> {''/'', sep} then (False, fs)
        else
          let expected_str = str_of expected_parent in
          case commonpath expected_str path_str of
            None \<Rightarrow> (False, fs)
          | Some common \<Rightarrow>
              if common \<noteq> expected_str then (False, fs)
              else rmtree f path fs)"

subsection \<open>Building one imageset\<close>

text \<open>
  The name of the variant file of a scale. \<^verbatim>\<open>scale[0]\<close> raises \<^verbatim>\<open>IndexError\<close> on
  the empty string, which nothing catches: \<open>None\<close>.
\<close>

definition variant_name :: "string \<Rightarrow> string \<Rightarrow> string \<Rightarrow> string option" where
  "variant_name base_name ext scale =
     (if scale = ''1x'' then Some (base_name @ ext)
      else case scale of
        [] \<Rightarrow> None
      | c # _ \<Rightarrow> Some (base_name @ ''@'' @ [c] @ ''x'' @ ext))"

text \<open>
  The loop over the scales, with the accumulator \<^verbatim>\<open>images_array\<close>. The first component
  of the result is \<open>None\<close> when the loop was left by the uncaught exception.
\<close>

fun build_images ::
  "faults \<Rightarrow> path \<Rightarrow> path \<Rightarrow> string \<Rightarrow> string \<Rightarrow> string list \<Rightarrow> json list \<Rightarrow> fs
     \<Rightarrow> json list option \<times> fs" where
  "build_images f source_dir imageset_dir base_name ext [] images_array fs =
     (Some images_array, fs)"
| "build_images f source_dir imageset_dir base_name ext (scale # scales) images_array fs =
     (case variant_name base_name ext scale of
        None \<Rightarrow> (None, fs)
      | Some vn \<Rightarrow>
          let source_file = source_dir @ [vn];
              image_entry = [(''idiom'', JStr ''universal''), (''scale'', JStr scale)]
          in
          if exists fs source_file then
            (case copy2 f source_file (imageset_dir @ [vn]) fs of
               (True, fs') \<Rightarrow>
                 build_images f source_dir imageset_dir base_name ext scales
                   (images_array @ [JObj (image_entry @ [(''filename'', JStr vn)])]) fs'
             | (False, fs') \<Rightarrow>
                 build_images f source_dir imageset_dir base_name ext scales
                   (images_array @ [JObj image_entry]) fs')
          else
            build_images f source_dir imageset_dir base_name ext scales
              (images_array @ [JObj image_entry]) fs)"

definition info_block :: json where
  "info_block = JObj [(''author'', JStr ''xcode''), (''version'', JInt 1)]"

text \<open>
  \<^verbatim>\<open>create_imageset\<close>. The result is \<open>Some True\<close> or \<open>Some False\<close> for the value returned,
  \<open>None\<close> for the uncaught exception.
\<close>

definition create_imageset ::
  "faults \<Rightarrow> path \<Rightarrow> path \<Rightarrow> string \<Rightarrow> string \<Rightarrow> string list \<Rightarrow> fs \<Rightarrow> bool option \<times> fs" where
  "create_imageset f source_dir dest_dir base_name ext scales fs =
     (let imageset_dir = dest_dir @ [base_name @ ''.imageset''] in
      case makedirs f imageset_dir fs of
        (False, fs1) \<Rightarrow> (Some False, fs1)
      | (True, fs1) \<Rightarrow>
          (case build_images f source_dir imageset_dir base_name ext scales [] fs1 of
             (None, fs2) \<Rightarrow> (None, fs2)
           | (Some images_array, fs2) \<Rightarrow>
               let contents = JObj [(''images'', JArr images_array), (''info'', info_block)] in
               case write_file f (imageset_dir @ [''Contents.json'']) (JsonDoc contents) fs2 of
                 (False, fs3) \<Rightarrow> (Some False, fs3)
               | (True, fs3) \<Rightarrow> (Some True, fs3)))"

subsection \<open>The migration\<close>

definition image_extensions :: "string set" where
  "image_extensions = {''.png'', ''.jpg'', ''.jpeg''}"

definition scales :: "string list" where
  "scales = [''1x'', ''2x'', ''3x'']"

text \<open>
  The inner loop over \<^verbatim>\<open>["@2x", "@3x"]\<close>: the first suffix the stem ends with is cut
  off and the loop is left.
\<close>

fun strip_scale_suffix :: "string list \<Rightarrow> string \<Rightarrow> string" where
  "strip_scale_suffix [] stm = stm"
| "strip_scale_suffix (scale_suffix # rest) stm =
     (if endswith stm scale_suffix then take (length stm - length scale_suffix) stm
      else strip_scale_suffix rest stm)"

text \<open>The pair a file name contributes to \<^verbatim>\<open>base_names\<close>.\<close>

definition group_of :: "string \<Rightarrow> string \<times> string" where
  "group_of filename = (strip_scale_suffix [''@2x'', ''@3x''] (stem filename), suffix_of filename)"

definition is_image_name :: "string \<Rightarrow> bool" where
  "is_image_name filename = (lower (suffix_of filename) \<in> image_extensions)"

text \<open>The set \<^verbatim>\<open>base_names\<close> computed from a directory listing.\<close>

definition base_names :: "string fset \<Rightarrow> (string \<times> string) fset" where
  "base_names listing = group_of |`| ffilter is_image_name listing"

text \<open>
  \<^verbatim>\<open>sorted(base_names)\<close>: Python compares tuples and strings lexicographically, strings
  code point by code point, which is the order of pairs of character lists here.
\<close>

definition sorted_groups :: "string fset \<Rightarrow> (string \<times> string) list" where
  "sorted_groups listing = sorted_list_of_fset (base_names listing)"

text \<open>The loop over the sorted groups, with the flag \<^verbatim>\<open>all_success\<close>.\<close>

fun process_groups ::
  "faults \<Rightarrow> path \<Rightarrow> path \<Rightarrow> (string \<times> string) list \<Rightarrow> bool \<Rightarrow> fs \<Rightarrow> bool option \<times> fs" where
  "process_groups f source_dir dest_dir [] all_success fs = (Some all_success, fs)"
| "process_groups f source_dir dest_dir ((base_name, ext) # rest) all_success fs =
     (case create_imageset f source_dir dest_dir base_name ext scales fs of
        (None, fs') \<Rightarrow> (None, fs')
      | (Some success, fs') \<Rightarrow>
          process_groups f source_dir dest_dir rest (if \<not> success then False else all_success) fs')"

definition root_manifest :: content where
  "root_manifest = JsonDoc (JObj [(''info'', info_block)])"

text \<open>
  \<^verbatim>\<open>migrate_assets\<close>; \<open>project_root\<close> is the value of \<^verbatim>\<open>get_project_root()\<close>, the
  directory of the script.
\<close>

definition migrate_assets :: "faults \<Rightarrow> path \<Rightarrow> path \<Rightarrow> path \<Rightarrow> fs \<Rightarrow> bool option \<times> fs" where
  "migrate_assets f project_root source_dir dest_dir fs =
     (if \<not> exists fs source_dir then (Some False, fs)
      else if \<not> is_dir fs source_dir then (Some False, fs)
      else
        let expected_parent = project_root @ [''Sources''] in
        case safe_rmtree f dest_dir expected_parent fs of
          (False, fs1) \<Rightarrow> (Some False, fs1)
        | (True, fs1) \<Rightarrow>
            (case makedirs f dest_dir fs1 of
               (False, fs2) \<Rightarrow> (Some False, fs2)
             | (True, fs2) \<Rightarrow>
                 (case write_file f (dest_dir @ [''Contents.json'']) root_manifest fs2 of
                    (False, fs3) \<Rightarrow> (Some False, fs3)
                  | (True, fs3) \<Rightarrow>
                      (case listdir f source_dir fs3 of
                         None \<Rightarrow> (Some False, fs3)
                       | Some listing \<Rightarrow>
                           process_groups f source_dir dest_dir (sorted_groups listing) True fs3))))"

subsection \<open>The entry point\<close>

text \<open>
  A \<^verbatim>\<open>Path\<close> object as the script's entry point builds it from a string: whether it is
  absolute, and its components. The constructor drops empty and \<^verbatim>\<open>.\<close> components, so
  \<^verbatim>\<open>Path("")\<close> is the path of no components that prints as \<^verbatim>\<open>.\<close>. (POSIX lets a
  name start with exactly two slashes; that form is read as one slash here.)
\<close>

datatype pypath = PurePath (is_absolute: bool) (parts: "string list")

definition Path :: "string \<Rightarrow> pypath" where
  "Path s = PurePath (take 1 s = ''/'') (filter (\<lambda>c. c \<noteq> [] \<and> c \<noteq> ''.'') (split s (CHR ''/'')))"

text \<open>
  \<^verbatim>\<open>pathlib\<close> defines neither \<^verbatim>\<open>__bool__\<close> nor \<^verbatim>\<open>__len__\<close>, so every path object
  is true in a boolean context, and \<^verbatim>\<open>a or b\<close> is \<open>a\<close> for a path \<open>a\<close>.
\<close>

definition truthy :: "pypath \<Rightarrow> bool" where
  "truthy p = True"

definition py_or :: "pypath \<Rightarrow> pypath \<Rightarrow> pypath" where
  "py_or a b = (if truthy a then a else b)"

record host =
  script_dir :: path
  cwd :: path
  environ :: "string \<rightharpoonup> string"
  argv :: "string list"

definition environ_get :: "(string \<rightharpoonup> string) \<Rightarrow> string \<Rightarrow> string \<Rightarrow> string" where
  "environ_get env k dflt = (case env k of None \<Rightarrow> dflt | Some v \<Rightarrow> v)"

definition get_default_paths :: "path \<Rightarrow> pypath \<times> pypath" where
  "get_default_paths root =
     (PurePath True (root @ [''Sources'', ''ClaudeUsagePro'', ''Assets'']),
      PurePath True (root @ [''Sources'', ''ClaudeUsagePro'', ''Assets.xcassets'']))"

text \<open>The first half of \<^verbatim>\<open>main\<close>: the pair of paths the migration is run on.\<close>

definition chosen_paths :: "host \<Rightarrow> pypath \<times> pypath" where
  "chosen_paths h =
     (let (default_source, default_dest) = get_default_paths (script_dir h);
          source_dir = py_or (Path (environ_get (environ h) ''ASSET_SOURCE_DIR'' [])) default_source;
          dest_dir = py_or (Path (environ_get (environ h) ''ASSET_DEST_DIR'' [])) default_dest;
          source_dir = (if length (argv h) \<ge> 2 then Path (argv h ! 1) else source_dir);
          dest_dir = (if length (argv h) \<ge> 3 then Path (argv h ! 2) else dest_dir)
      in (source_dir, dest_dir))"

text \<open>
  Where a path object points. The script hands its path objects to the operating system
  as they are. An absolute path, and a relative path of at least one component, points at
  the location read off its components, a relative one starting at the working directory.
  That does not hold of a path with a \<^verbatim>\<open>..\<close> component, which the kernel resolves
  against the tree as it is at the time of each call (and not at all through a missing
  directory), nor of the empty relative path \<^verbatim>\<open>.\<close>, which stands for the working
  directory whatever becomes of its name and cannot be removed under that name. The
  model follows neither: such a path has no location.
\<close>

definition locate :: "path \<Rightarrow> pypath \<Rightarrow> path option" where
  "locate wd p =
     (if ''..'' \<in> set (parts p) then None
      else if is_absolute p then Some (parts p)
      else if parts p = [] then None
      else Some (wd @ parts p))"

text \<open>
  \<^verbatim>\<open>main\<close>: the exit status and the tree it leaves, for a run whose two paths have a
  location (\<open>None\<close> otherwise). An exception that escapes ends the interpreter with
  status 1. What the script prints is not part of the model.
\<close>

definition main :: "host \<Rightarrow> faults \<Rightarrow> fs \<Rightarrow> (int \<times> fs) option" where
  "main h f fs =
     (let (source_dir, dest_dir) = chosen_paths h in
      case locate (cwd h) source_dir of
        None \<Rightarrow> None
      | Some source_loc \<Rightarrow>
          (case locate (cwd h) dest_dir of
             None \<Rightarrow> None
           | Some dest_loc \<Rightarrow>
               (case migrate_assets f (script_dir h) source_loc dest_loc fs of
                  (Some True, fs') \<Rightarrow> Some (0, fs')
                | (_, fs') \<Rightarrow> Some (1, fs'))))"

subsection \<open>Notions used in the statements\<close>

text \<open>
  The components of a resolved path: not empty, not \<^verbatim>\<open>.\<close>, and free of the separator.
\<close>

definition valid_name :: "string \<Rightarrow> bool" where
  "valid_name c = (c \<noteq> [] \<and> c \<noteq> ''.'' \<and> CHR ''/'' \<notin> set c)"

definition valid_path :: "path \<Rightarrow> bool" where
  "valid_path p = list_all valid_name p"

text \<open>Directories stay directories.\<close>

definition dirs_kept :: "fs \<Rightarrow> fs \<Rightarrow> bool" where
  "dirs_kept fs fs' = (\<forall>q. is_dir fs q \<longrightarrow> is_dir fs' q)"

text \<open>Nothing outside the subtree at \<open>d\<close> differs.\<close>

definition same_outside :: "path \<Rightarrow> fs \<Rightarrow> fs \<Rightarrow> bool" where
  "same_outside d fs fs' = (\<forall>q. \<not> prefix d q \<longrightarrow> fmlookup fs' q = fmlookup fs q)"

subsection \<open>A sample project\<close>

text \<open>
  A project at \<^verbatim>\<open>/proj\<close> whose asset directory holds one image in three scales, one
  image in a single scale and a text file.
\<close>

definition sample_tree :: fs where
  "sample_tree =
     fmupd [''proj'', ''Sources'', ''Assets'', ''logo.png''] (File (Blob ''L1''))
    (fmupd [''proj'', ''Sources'', ''Assets'', ''logo@2x.png''] (File (Blob ''L2''))
    (fmupd [''proj'', ''Sources'', ''Assets'', ''logo@3x.png''] (File (Blob ''L3''))
    (fmupd [''proj'', ''Sources'', ''Assets'', ''y.jpg''] (File (Blob ''Y1''))
    (fmupd [''proj'', ''Sources'', ''Assets'', ''notes.txt''] (File (Blob ''N''))
    (fmupd [''proj'', ''Sources'', ''Assets''] Dir
    (fmupd [''proj'', ''Sources''] Dir
    (fmupd [''proj''] Dir fmempty)))))))"

text \<open>
  The manifest entry of one scale slot, with or without a file name, and what the loop of
  the imageset builder does for one variant: whether it copies the file, and the tree it
  leaves.
\<close>

definition manifest_entry :: "string \<Rightarrow> string option \<Rightarrow> json" where
  "manifest_entry scale filename =
     JObj ([(''idiom'', JStr ''universal''), (''scale'', JStr scale)]
           @ (case filename of None \<Rightarrow> [] | Some n \<Rightarrow> [(''filename'', JStr n)]))"

definition copied :: "faults \<Rightarrow> path \<Rightarrow> path \<Rightarrow> string \<Rightarrow> fs \<Rightarrow> bool" where
  "copied f source_dir imageset_dir vn fs =
     (exists fs (source_dir @ [vn]) \<and> fst (copy2 f (source_dir @ [vn]) (imageset_dir @ [vn]) fs))"

definition after_variant :: "faults \<Rightarrow> path \<Rightarrow> path \<Rightarrow> string \<Rightarrow> fs \<Rightarrow> fs" where
  "after_variant f source_dir imageset_dir vn fs =
     (if exists fs (source_dir @ [vn])
      then snd (copy2 f (source_dir @ [vn]) (imageset_dir @ [vn]) fs) else fs)"

text \<open>
  Two projects that differ from the sample in the asset directory: one holds
  \<^verbatim>\<open>x.png\<close> and \<^verbatim>\<open>x.jpg\<close>, the other a subdirectory named \<^verbatim>\<open>icons.png\<close> and,
  beside \<^verbatim>\<open>@2x.png\<close>, a file named \<^verbatim>\<open>.png\<close>.
\<close>

definition clash_tree :: fs where
  "clash_tree =
     fmupd [''proj'', ''Sources'', ''Assets'', ''x.png''] (File (Blob ''P''))
    (fmupd [''proj'', ''Sources'', ''Assets'', ''x.jpg''] (File (Blob ''J''))
    (fmupd [''proj'', ''Sources'', ''Assets''] Dir
    (fmupd [''proj'', ''Sources''] Dir
    (fmupd [''proj''] Dir fmempty))))"

definition odd_tree :: fs where
  "odd_tree =
     fmupd [''proj'', ''Sources'', ''Assets'', ''icons.png'', ''a.txt''] (File (Blob ''A''))
    (fmupd [''proj'', ''Sources'', ''Assets'', ''icons.png''] Dir
    (fmupd [''proj'', ''Sources'', ''Assets'', ''@2x.png''] (File (Blob ''T''))
    (fmupd [''proj'', ''Sources'', ''Assets'', ''.png''] (File (Blob ''H''))
    (fmupd [''proj'', ''Sources'', ''Assets''] Dir
    (fmupd [''proj'', ''Sources''] Dir
    (fmupd [''proj''] Dir fmempty))))))"

text \<open>The operating system of the sample run in which one copy is refused.\<close>

definition copy_refused :: "path \<Rightarrow> faults" where
  "copy_refused p = no_faults \<lparr> copy_fails := (\<lambda>src dst. src = p) \<rparr>"

definition sample_host :: host where
  "sample_host = \<lparr> script_dir = [''proj''], cwd = [''proj''], environ = Map.empty,
     argv = [''migrate_assets.py'', ''Sources/Assets'', ''Sources/Assets.xcassets''] \<rparr>"

text \<open>
  The tests of the guarded delete do not look at the tree; and the part of the migration
  that follows the creation of the destination directory, named for the proofs.
\<close>

definition guard_passes :: "path \<Rightarrow> path \<Rightarrow> bool" where
  "guard_passes path expected_parent =
     (str_of path \<noteq> [] \<and> str_of path \<noteq> ''/'' \<and> str_of path \<noteq> sep
      \<and> commonpath (str_of expected_parent) (str_of path) = Some (str_of expected_parent))"

definition populate :: "faults \<Rightarrow> path \<Rightarrow> path \<Rightarrow> fs \<Rightarrow> bool option \<times> fs" where
  "populate f source_dir dest_dir fs =
     (case write_file f (dest_dir @ [''Contents.json'']) root_manifest fs of
        (False, fs3) \<Rightarrow> (Some False, fs3)
      | (True, fs3) \<Rightarrow>
          (case listdir f source_dir fs3 of
             None \<Rightarrow> (Some False, fs3)
           | Some listing \<Rightarrow>
               process_groups f source_dir dest_dir (sorted_groups listing) True fs3))"

text \<open>
  What holds of the destination from its creation to the end of a run: it is a directory,
  an entry named like an imageset is a directory if it exists, and there is no directory
  two levels down.
\<close>

definition catalog_inv :: "path \<Rightarrow> fs \<Rightarrow> bool" where
  "catalog_inv d fs =
     (is_dir fs d
      \<and> (\<forall>b. fmlookup fs (d @ [b @ ''.imageset'']) = None
             \<or> fmlookup fs (d @ [b @ ''.imageset'']) = Some Dir)
      \<and> (\<forall>i n. fmlookup fs (d @ [i, n]) \<noteq> Some Dir))"

text \<open>An operating system on which nothing but a copy can fail.\<close>

definition only_copies_fail :: "faults \<Rightarrow> bool" where
  "only_copies_fail f =
     (\<forall>p. \<not> rmtree_fails f p \<and> \<not> mkdir_fails f p \<and> \<not> write_fails f p \<and> \<not> listdir_fails f p)"

text \<open>
  The stages of one build, named for the proofs: the tree once the imageset directory is
  there, the tree after the three variants had their turn, and the entries collected.
\<close>

definition imageset_ready :: "path \<Rightarrow> string \<Rightarrow> fs \<Rightarrow> fs" where
  "imageset_ready d b fs =
     (if is_dir fs (d @ [b @ ''.imageset'']) then fs else fmupd (d @ [b @ ''.imageset'']) Dir fs)"

definition variants_done :: "faults \<Rightarrow> path \<Rightarrow> path \<Rightarrow> string \<Rightarrow> string \<Rightarrow> fs \<Rightarrow> fs" where
  "variants_done f s i b e fs =
     after_variant f s i (b @ ''@3x'' @ e)
       (after_variant f s i (b @ ''@2x'' @ e) (after_variant f s i (b @ e) fs))"

definition entries_of :: "faults \<Rightarrow> path \<Rightarrow> path \<Rightarrow> string \<Rightarrow> string \<Rightarrow> fs \<Rightarrow> json list" where
  "entries_of f s i b e fs =
     [manifest_entry ''1x'' (if copied f s i (b @ e) fs then Some (b @ e) else None),
      manifest_entry ''2x''
        (if copied f s i (b @ ''@2x'' @ e) (after_variant f s i (b @ e) fs)
         then Some (b @ ''@2x'' @ e) else None),
      manifest_entry ''3x''
        (if copied f s i (b @ ''@3x'' @ e)
             (after_variant f s i (b @ ''@2x'' @ e) (after_variant f s i (b @ e) fs))
         then Some (b @ ''@3x'' @ e) else None)]"

text \<open>
  The build of one group as a step from tree to tree, and what the builds of a list of
  groups return when they are run one after the other, each on the tree its predecessor
  left.
\<close>

definition build :: "faults \<Rightarrow> path \<Rightarrow> path \<Rightarrow> fs \<Rightarrow> string \<times> string \<Rightarrow> fs" where
  "build f source_dir dest_dir fs g =
     snd (create_imageset f source_dir dest_dir (fst g) (snd g) scales fs)"

fun outcomes ::
  "faults \<Rightarrow> path \<Rightarrow> path \<Rightarrow> (string \<times> string) list \<Rightarrow> fs \<Rightarrow> bool option list" where
  "outcomes f source_dir dest_dir [] fs = []"
| "outcomes f source_dir dest_dir (g # gs) fs =
     fst (create_imageset f source_dir dest_dir (fst g) (snd g) scales fs)
       # outcomes f source_dir dest_dir gs (build f source_dir dest_dir fs g)"

section \<open>Properties\<close>

subsection \<open>Path names as strings\<close>

lemma split_from_skip:
  "c \<notin> set w \<Longrightarrow> split_from c (w @ rest) cur = split_from c rest (cur @ w)"
  by (induction w arbitrary: cur) auto

lemma split_from_components:
  "list_all (\<lambda>w. CHR ''/'' \<notin> set w) p \<Longrightarrow>
   split_from (CHR ''/'') (concat (map (\<lambda>w. CHR ''/'' # w) p)) cur = cur # p"
proof (induction p arbitrary: cur)
  case Nil
  then show ?case by simp
next
  case (Cons w ws)
  then show ?case by (simp add: split_from_skip)
qed

lemma components_str_of:
  assumes "valid_path p"
  shows "filter (\<lambda>c. c \<noteq> [] \<and> c \<noteq> ''.'') (split (str_of p) (CHR ''/'')) = p"
proof (cases "p = []")
  case True
  then show ?thesis by (simp add: str_of_def split_def)
next
  case False
  have a: "list_all (\<lambda>w. CHR ''/'' \<notin> set w) p"
    using assms by (simp add: valid_path_def valid_name_def list_all_iff)
  have b: "filter (\<lambda>c. c \<noteq> [] \<and> c \<noteq> ''.'') p = p"
    using assms by (simp add: valid_path_def valid_name_def list_all_iff filter_id_conv)
  show ?thesis
    using False by (simp add: str_of_def split_def split_from_components [OF a] b)
qed

lemma str_of_absolute: "take (Suc 0) (str_of p) = sep"
  by (cases p) (simp_all add: str_of_def sep_def)

lemma join_str_of: "sep @ join sep xs = str_of xs"
  by (induction sep xs rule: join.induct) (simp_all add: str_of_def sep_def)

lemma common_prefix_commute: "common_prefix xs ys = common_prefix ys xs"
  by (induction xs ys rule: common_prefix.induct) auto

lemma common_prefix_min_max:
  "common_prefix (min a b) (max a b) = common_prefix a (b :: 'a :: linorder list)"
  by (cases "a \<le> b") (simp_all add: min_def max_def common_prefix_commute)

lemma common_prefix_is_prefix: "prefix (common_prefix xs ys) xs"
  by (induction xs ys rule: common_prefix.induct) auto

lemma common_prefix_eq_iff: "common_prefix xs ys = xs \<longleftrightarrow> prefix xs ys"
  by (induction xs ys rule: common_prefix.induct) auto

lemma valid_path_prefix: "valid_path p \<Longrightarrow> prefix q p \<Longrightarrow> valid_path q"
  by (auto simp: valid_path_def prefix_def)

lemma str_of_inject:
  assumes "valid_path p" "valid_path q" "str_of p = str_of q"
  shows "p = q"
  using components_str_of [OF assms(1)] components_str_of [OF assms(2)] assms(3) by metis

lemma commonpath_str_of:
  assumes "valid_path e" "valid_path p"
  shows "commonpath (str_of e) (str_of p) = Some (str_of (common_prefix e p))"
  using assms
  by (simp add: commonpath_def Let_def str_of_absolute components_str_of
      common_prefix_min_max join_str_of)

lemma commonpath_guard:
  assumes "valid_path e" "valid_path p"
  shows "commonpath (str_of e) (str_of p) = Some (str_of e) \<longleftrightarrow> prefix e p"
proof -
  have v: "valid_path (common_prefix e p)"
    using valid_path_prefix [OF assms(1) common_prefix_is_prefix] .
  show ?thesis
  proof
    assume "commonpath (str_of e) (str_of p) = Some (str_of e)"
    then have "str_of (common_prefix e p) = str_of e"
      by (simp add: commonpath_str_of [OF assms])
    then have "common_prefix e p = e"
      by (rule str_of_inject [OF v assms(1)])
    then show "prefix e p" by (simp add: common_prefix_eq_iff)
  next
    assume "prefix e p"
    then have "common_prefix e p = e" by (simp add: common_prefix_eq_iff)
    then show "commonpath (str_of e) (str_of p) = Some (str_of e)"
      by (simp add: commonpath_str_of [OF assms])
  qed
qed

lemma str_of_root_iff: "valid_path p \<Longrightarrow> str_of p = ''/'' \<longleftrightarrow> p = []"
proof
  assume v: "valid_path p" and "str_of p = ''/''"
  then have "str_of p = str_of []" by (simp add: str_of_def)
  moreover have "valid_path []" by (simp add: valid_path_def)
  ultimately show "p = []" using str_of_inject [OF v] by blast
next
  assume "p = []"
  then show "str_of p = ''/''" by (simp add: str_of_def)
qed

text \<open>
  On resolved paths the three string tests of the guarded delete amount to: the path is
  the root, or the expected parent is not a prefix of it.
\<close>

lemma safe_rmtree_eq:
  assumes "valid_path e" "valid_path p"
  shows "safe_rmtree f p e fs =
     (if \<not> exists fs p then (True, fs)
      else if p = [] \<or> \<not> prefix e p then (False, fs)
      else rmtree f p fs)"
proof -
  have ne: "str_of p \<noteq> []" by (cases p) (simp_all add: str_of_def)
  have cp: "commonpath (str_of e) (str_of p) = Some (str_of (common_prefix e p))"
    by (rule commonpath_str_of [OF assms])
  have g: "str_of (common_prefix e p) = str_of e \<longleftrightarrow> prefix e p"
    using commonpath_guard [OF assms] by (simp add: cp)
  show ?thesis
    by (simp add: safe_rmtree_def Let_def sep_def cp g ne str_of_root_iff [OF assms(2)])
qed

subsection \<open>Effects of the file operations\<close>

lemma is_dir_root [simp]: "is_dir fs []"
  by (simp add: is_dir_def node_at_def)

lemma exists_root [simp]: "exists fs []"
  by (simp add: exists_def node_at_def)

lemma is_dir_exists: "is_dir fs p \<Longrightarrow> exists fs p"
  by (simp add: is_dir_def exists_def)

lemma mkdir_lookup:
  "mkdir f p fs = (ok, fs') \<Longrightarrow>
   fmlookup fs' q = (if ok \<and> q = p then Some Dir else fmlookup fs q)"
  by (auto simp: mkdir_def split: if_splits)

lemma mkdir_ok_iff:
  "fst (mkdir f p fs) \<longleftrightarrow> \<not> exists fs p \<and> is_dir fs (butlast p) \<and> \<not> mkdir_fails f p"
  by (simp add: mkdir_def)

lemma write_file_lookup:
  "write_file f p c fs = (ok, fs') \<Longrightarrow>
   fmlookup fs' q = (if ok \<and> q = p then Some (File c) else fmlookup fs q)"
  by (auto simp: write_file_def split: if_splits)

lemma dirs_kept_refl [simp]: "dirs_kept fs fs"
  by (simp add: dirs_kept_def)

lemma dirs_kept_trans: "dirs_kept a b \<Longrightarrow> dirs_kept b c \<Longrightarrow> dirs_kept a c"
  by (simp add: dirs_kept_def)

lemma dirs_kept_mkdir: "mkdir f p fs = (ok, fs') \<Longrightarrow> dirs_kept fs fs'"
  by (auto simp: mkdir_def dirs_kept_def is_dir_def exists_def node_at_def split: if_splits)

lemma dirs_kept_write_file: "write_file f p c fs = (ok, fs') \<Longrightarrow> dirs_kept fs fs'"
  by (auto simp: write_file_def dirs_kept_def is_dir_def node_at_def split: if_splits)

lemma dirs_kept_copy2: "copy2 f src dst fs = (ok, fs') \<Longrightarrow> dirs_kept fs fs'"
  by (auto simp: copy2_def Let_def dirs_kept_def is_dir_def node_at_def
      split: if_splits option.splits node.splits)

lemma makedirs_unfold:
  "makedirs f p fs =
     (case (if p \<noteq> [] \<and> \<not> exists fs (butlast p) then makedirs f (butlast p) fs else (True, fs)) of
        (False, fs1) \<Rightarrow> (False, fs1)
      | (True, fs1) \<Rightarrow>
          (case mkdir f p fs1 of
             (True, fs2) \<Rightarrow> (True, fs2)
           | (False, fs2) \<Rightarrow> (is_dir fs2 p, fs2)))"
  by (rule makedirs.simps)

lemma dirs_kept_makedirs: "makedirs f p fs = (ok, fs') \<Longrightarrow> dirs_kept fs fs'"
proof (induction f p fs arbitrary: ok fs' rule: makedirs.induct)
  case (1 f p fs)
  obtain ok1 fs1 where r: "(if p \<noteq> [] \<and> \<not> exists fs (butlast p) then makedirs f (butlast p) fs else (True, fs)) = (ok1, fs1)"
    by (cases "(if p \<noteq> [] \<and> \<not> exists fs (butlast p) then makedirs f (butlast p) fs else (True, fs))") auto
  have k1: "dirs_kept fs fs1"
    using r "1.IH" by (auto split: if_splits)
  obtain ok2 fs2 where m: "mkdir f p fs1 = (ok2, fs2)" by (cases "mkdir f p fs1") auto
  have k2: "dirs_kept fs1 fs2" using m by (rule dirs_kept_mkdir)
  have "fs' = fs1 \<or> fs' = fs2"
    using "1.prems" r m by (subst (asm) makedirs.simps) (auto split: if_splits bool.splits)
  then show ?case using k1 k2 dirs_kept_trans by blast
qed

lemma makedirs_ok_is_dir: "makedirs f p fs = (True, fs') \<Longrightarrow> is_dir fs' p"
  apply (subst (asm) makedirs.simps)
  apply (auto split: prod.splits bool.splits if_splits simp: mkdir_def is_dir_def node_at_def)
  done

lemma dirs_kept_build_images:
  "build_images f s d b e scs acc fs = (r, fs') \<Longrightarrow> dirs_kept fs fs'"
proof (induction scs arbitrary: acc fs)
  case Nil
  then show ?case by simp
next
  case (Cons sc scs)
  show ?case
  proof (cases "variant_name b e sc")
    case None
    then show ?thesis using Cons.prems by simp
  next
    case (Some vn)
    show ?thesis
    proof (cases "exists fs (s @ [vn])")
      case False
      then show ?thesis using Cons.prems Some Cons.IH by (simp add: Let_def)
    next
      case True
      obtain ok fs1 where c: "copy2 f (s @ [vn]) (d @ [vn]) fs = (ok, fs1)"
        by (cases "copy2 f (s @ [vn]) (d @ [vn]) fs") auto
      have "dirs_kept fs fs1" using c by (rule dirs_kept_copy2)
      moreover have "dirs_kept fs1 fs'"
        using Cons.prems Some True c Cons.IH by (cases ok) (auto simp: Let_def)
      ultimately show ?thesis by (rule dirs_kept_trans)
    qed
  qed
qed

lemma dirs_kept_create_imageset:
  assumes "create_imageset f s d b e scs fs = (r, fs')"
  shows "dirs_kept fs fs'"
proof -
  obtain ok1 fs1 where m: "makedirs f (d @ [b @ ''.imageset'']) fs = (ok1, fs1)"
    by (cases "makedirs f (d @ [b @ ''.imageset'']) fs") auto
  have k1: "dirs_kept fs fs1" using m by (rule dirs_kept_makedirs)
  show ?thesis
  proof (cases ok1)
    case False
    then show ?thesis using assms m k1 by (simp add: create_imageset_def Let_def)
  next
    case True
    obtain r2 fs2 where b: "build_images f s (d @ [b @ ''.imageset'']) b e scs [] fs1 = (r2, fs2)"
      by (cases "build_images f s (d @ [b @ ''.imageset'']) b e scs [] fs1") auto
    have k2: "dirs_kept fs1 fs2" using b by (rule dirs_kept_build_images)
    show ?thesis
    proof (cases r2)
      case None
      then show ?thesis using assms m True b k1 k2 dirs_kept_trans
        by (auto simp: create_imageset_def Let_def)
    next
      case (Some imgs)
      obtain ok3 fs3 where w: "write_file f (d @ [b @ ''.imageset'', ''Contents.json''])
          (JsonDoc (JObj [(''images'', JArr imgs), (''info'', info_block)])) fs2 = (ok3, fs3)"
        by (cases "write_file f (d @ [b @ ''.imageset'', ''Contents.json''])
          (JsonDoc (JObj [(''images'', JArr imgs), (''info'', info_block)])) fs2") auto
      have k3: "dirs_kept fs2 fs3" using w by (rule dirs_kept_write_file)
      have "fs' = fs3"
        using assms m True b Some w by (cases ok3) (auto simp: create_imageset_def Let_def)
      then show ?thesis using k1 k2 k3 dirs_kept_trans by blast
    qed
  qed
qed

lemma dirs_kept_process_groups:
  "process_groups f s d gs a fs = (r, fs') \<Longrightarrow> dirs_kept fs fs'"
proof (induction gs arbitrary: a fs)
  case Nil
  then show ?case by simp
next
  case (Cons g gs)
  obtain b e where g: "g = (b, e)" by (cases g)
  obtain r1 fs1 where c: "create_imageset f s d b e scales fs = (r1, fs1)"
    by (cases "create_imageset f s d b e scales fs") auto
  have k1: "dirs_kept fs fs1" using c by (rule dirs_kept_create_imageset)
  show ?case
  proof (cases r1)
    case None
    then show ?thesis using Cons.prems g c k1 by simp
  next
    case (Some ok)
    then have "dirs_kept fs1 fs'" using Cons.prems g c Cons.IH by simp
    with k1 show ?thesis by (rule dirs_kept_trans)
  qed
qed

subsection \<open>The path resolver and the guarded delete\<close>

text \<open>
  Positional arguments win over whatever the environment gave: with two of them the pair is
  read off the command line.
\<close>

lemma chosen_paths_cli:
  "3 \<le> length (argv h) \<Longrightarrow> chosen_paths h = (Path (argv h ! 1), Path (argv h ! 2))"
  by (simp add: chosen_paths_def get_default_paths_def Let_def)

text \<open>
  Without arguments the environment decides, and always: the value of the variable, or
  the empty string when it is unset, becomes the path.
\<close>

lemma chosen_paths_env:
  "length (argv h) < 2 \<Longrightarrow>
   chosen_paths h = (Path (environ_get (environ h) ''ASSET_SOURCE_DIR'' []),
                     Path (environ_get (environ h) ''ASSET_DEST_DIR'' []))"
  by (simp add: chosen_paths_def get_default_paths_def Let_def py_or_def truthy_def)

lemma valid_path_append: "valid_path (p @ q) \<longleftrightarrow> valid_path p \<and> valid_path q"
  by (simp add: valid_path_def)

lemma valid_path_Sources: "valid_path [''Sources'']"
  by (simp add: valid_path_def valid_name_def)

text \<open>
  Claim C3 (path resolver): with no command-line arguments and both environment variables
  unset, the resulting pair is to be the built-in defaults. The script evaluates
  \<^verbatim>\<open>Path(os.environ.get(..., "")) or default\<close>, and a path object is always true, so
  the default is never taken: for every project root, working directory and program name
  the result is the pair of empty relative paths (the working directory), which differs
  from the defaults.
\<close>

theorem unset_environment_ignores_defaults:
  "chosen_paths \<lparr>script_dir = root, cwd = wd, environ = Map.empty, argv = [prog]\<rparr>
     = (PurePath False [], PurePath False [])
   \<and> chosen_paths \<lparr>script_dir = root, cwd = wd, environ = Map.empty, argv = [prog]\<rparr>
     \<noteq> get_default_paths root"
  by (simp add: chosen_paths_def get_default_paths_def py_or_def truthy_def environ_get_def
      Path_def split_def)

text \<open>
  Claim C1 (guarded delete), for a destination that exists: when its resolved path is the
  root (which is also the path separator), or the expected parent
  \<^verbatim>\<open><project_root>/Sources\<close> is not a prefix of it, the guarded delete returns failure
  and leaves the tree untouched, and so does the migration, whatever the source directory
  and whatever the operating system would have let through.
\<close>

theorem guarded_delete_refuses:
  assumes "valid_path project_root" and "valid_path dest_dir"
    and "exists fs dest_dir"
    and "dest_dir = [] \<or> \<not> prefix (project_root @ [''Sources'']) dest_dir"
  shows "safe_rmtree f dest_dir (project_root @ [''Sources'']) fs = (False, fs)
       \<and> migrate_assets f project_root source_dir dest_dir fs = (Some False, fs)"
proof -
  have v: "valid_path (project_root @ [''Sources''])"
    using assms(1) by (simp add: valid_path_append valid_path_Sources)
  have g: "safe_rmtree f dest_dir (project_root @ [''Sources'']) fs = (False, fs)"
    using assms(3,4) by (simp add: safe_rmtree_eq [OF v assms(2)])
  then show ?thesis by (simp add: migrate_assets_def Let_def)
qed

text \<open>
  In the sample project the refusal applies to the root and to \<^verbatim>\<open>/proj\<close>, which exists
  and lies outside \<^verbatim>\<open>/proj/Sources\<close>.
\<close>

theorem guarded_delete_refuses_witness:
  "valid_path [''proj''] \<and> exists sample_tree [] \<and> exists sample_tree [''proj'']
   \<and> \<not> prefix ([''proj''] @ [''Sources'']) [''proj'']
   \<and> safe_rmtree no_faults [] ([''proj''] @ [''Sources'']) sample_tree = (False, sample_tree)
   \<and> migrate_assets no_faults [''proj''] [''proj'', ''Sources'', ''Assets''] [] sample_tree
       = (Some False, sample_tree)
   \<and> safe_rmtree no_faults [''proj''] ([''proj''] @ [''Sources'']) sample_tree
       = (False, sample_tree)
   \<and> migrate_assets no_faults [''proj''] [''proj'', ''Sources'', ''Assets''] [''proj'']
        sample_tree
       = (Some False, sample_tree)"
proof -
  have h1: "valid_path [''proj'']" by (simp add: valid_path_def valid_name_def)
  have h2: "valid_path []" by (simp add: valid_path_def)
  have h3: "exists sample_tree []" by simp
  have h4: "exists sample_tree [''proj'']"
    by (simp add: exists_def node_at_def sample_tree_def)
  have h5: "\<not> prefix ([''proj''] @ [''Sources'']) [''proj'']" by simp
  show ?thesis
    using guarded_delete_refuses [OF h1 h2 h3, of no_faults "[''proj'', ''Sources'', ''Assets'']"]
      guarded_delete_refuses [OF h1 h1 h4, of no_faults "[''proj'', ''Sources'', ''Assets'']"]
      h1 h3 h4 h5
    by simp
qed

text \<open>
  Claim C1 as stated covers every destination outside the expected parent. For one that
  does not exist the guarded delete returns success, and the migration goes on to write:
  in the sample project, \<^verbatim>\<open>/tmp/out\<close> is outside \<^verbatim>\<open>/proj/Sources\<close>, and after the run
  it holds the catalog's root manifest.
\<close>

theorem guarded_delete_absent_counterexample:
  "\<not> prefix ([''proj''] @ [''Sources'']) [''tmp'', ''out'']
   \<and> fst (safe_rmtree no_faults [''tmp'', ''out''] ([''proj''] @ [''Sources'']) sample_tree) = True
   \<and> node_at sample_tree [''tmp'', ''out'', ''Contents.json''] = None
   \<and> node_at (snd (migrate_assets no_faults [''proj''] [''proj'', ''Sources'', ''Assets'']
        [''tmp'', ''out''] sample_tree)) [''tmp'', ''out'', ''Contents.json'']
       = Some (File root_manifest)"
  by code_simp

text \<open>
  Claim C10: a destination that does not exist makes the guarded delete return success
  before any of its tests, for every expected parent; the migration then creates the
  destination wherever the operating system lets it, and the destination is a directory
  in the tree the run leaves.
\<close>

theorem absent_destination_unguarded:
  assumes "\<not> exists fs dest_dir"
  shows "safe_rmtree f dest_dir expected_parent fs = (True, fs)
       \<and> (is_dir fs source_dir \<longrightarrow> fst (makedirs f dest_dir fs) \<longrightarrow>
            is_dir (snd (migrate_assets f project_root source_dir dest_dir fs)) dest_dir)"
proof -
  have g: "safe_rmtree f dest_dir e fs = (True, fs)" for e
    using assms by (simp add: safe_rmtree_def)
  have "is_dir (snd (migrate_assets f project_root source_dir dest_dir fs)) dest_dir"
    if s: "is_dir fs source_dir" and m: "fst (makedirs f dest_dir fs)"
  proof -
    obtain fs2 where m2: "makedirs f dest_dir fs = (True, fs2)"
      using m by (cases "makedirs f dest_dir fs") auto
    have d2: "is_dir fs2 dest_dir" using m2 by (rule makedirs_ok_is_dir)
    obtain ok3 fs3 where w: "write_file f (dest_dir @ [''Contents.json'']) root_manifest fs2 = (ok3, fs3)"
      by (cases "write_file f (dest_dir @ [''Contents.json'']) root_manifest fs2") auto
    have d3: "is_dir fs3 dest_dir"
      using dirs_kept_write_file [OF w] d2 by (simp add: dirs_kept_def)
    show ?thesis
    proof (cases ok3)
      case False
      then show ?thesis
        using s g m2 w d3 by (simp add: migrate_assets_def Let_def is_dir_exists)
    next
      case True
      show ?thesis
      proof (cases "listdir f source_dir fs3")
        case None
        then show ?thesis
          using s g m2 w d3 True by (simp add: migrate_assets_def Let_def is_dir_exists)
      next
        case (Some listing)
        obtain r fs4 where p: "process_groups f source_dir dest_dir (sorted_groups listing) True fs3 = (r, fs4)"
          by (cases "process_groups f source_dir dest_dir (sorted_groups listing) True fs3") auto
        have "is_dir fs4 dest_dir"
          using dirs_kept_process_groups [OF p] d3 by (simp add: dirs_kept_def)
        then show ?thesis
          using s g m2 w True Some p by (simp add: migrate_assets_def Let_def is_dir_exists)
      qed
    qed
  qed
  with g show ?thesis by blast
qed

text \<open>
  In the sample project \<^verbatim>\<open>/tmp/out\<close> does not exist and lies outside the expected
  parent; the run creates it.
\<close>

theorem absent_destination_unguarded_witness:
  "\<not> exists sample_tree [''tmp'', ''out'']
   \<and> \<not> prefix [''proj'', ''Sources''] [''tmp'', ''out'']
   \<and> safe_rmtree no_faults [''tmp'', ''out''] [''proj'', ''Sources''] sample_tree = (True, sample_tree)
   \<and> is_dir sample_tree [''proj'', ''Sources'', ''Assets'']
   \<and> fst (makedirs no_faults [''tmp'', ''out''] sample_tree)
   \<and> is_dir (snd (migrate_assets no_faults [''proj''] [''proj'', ''Sources'', ''Assets'']
        [''tmp'', ''out''] sample_tree)) [''tmp'', ''out'']"
proof -
  have h1: "\<not> exists sample_tree [''tmp'', ''out'']"
    by (simp add: exists_def node_at_def sample_tree_def)
  have h2: "is_dir sample_tree [''proj'', ''Sources'', ''Assets'']"
    by (simp add: is_dir_def node_at_def sample_tree_def)
  have h3: "fst (makedirs no_faults [''tmp'', ''out''] sample_tree)"
    by code_simp
  show ?thesis
    using absent_destination_unguarded [OF h1, of no_faults "[''proj'', ''Sources'']"
        "[''proj'', ''Sources'', ''Assets'']" "[''proj'']"] h1 h2 h3
    by simp
qed

subsection \<open>The order of the groups\<close>

text \<open>
  With the three scales of the script no build is left by an exception, so the loop over
  the groups is a fold of the builds.
\<close>

lemma variant_name_scale: "scale \<noteq> [] \<Longrightarrow> variant_name b e scale \<noteq> None"
  by (cases scale) (simp_all add: variant_name_def)

lemma build_images_returns:
  "[] \<notin> set scs \<Longrightarrow> fst (build_images f s i b e scs acc fs) \<noteq> None"
proof (induction scs arbitrary: acc fs)
  case Nil
  then show ?case by simp
next
  case (Cons scale scs)
  then have "scale \<noteq> []" by auto
  then obtain vn where vn: "variant_name b e scale = Some vn"
    using variant_name_scale [of scale b e] by auto
  have rest: "fst (build_images f s i b e scs acc' fs') \<noteq> None" for acc' fs'
    using Cons by simp
  show ?case
    using rest by (simp add: vn Let_def split: prod.split bool.split)
qed

lemma create_imageset_returns: "fst (create_imageset f s d b e scales fs) \<noteq> None"
proof -
  let ?i = "d @ [b @ ''.imageset'']"
  obtain ok fs1 where m: "makedirs f ?i fs = (ok, fs1)"
    by (cases "makedirs f ?i fs") auto
  show ?thesis
  proof (cases ok)
    case False
    then show ?thesis using m by (simp add: create_imageset_def)
  next
    case True
    obtain r fs2 where bi: "build_images f s ?i b e scales [] fs1 = (r, fs2)"
      by (cases "build_images f s ?i b e scales [] fs1") auto
    have "[] \<notin> set scales" by (simp add: scales_def)
    then have "r \<noteq> None"
      using build_images_returns [of scales f s ?i b e "[]" fs1] bi by simp
    then obtain images_array where "r = Some images_array" by auto
    then show ?thesis
      using m True bi by (auto simp: create_imageset_def Let_def split: prod.split bool.split)
  qed
qed

lemma process_groups_fold:
  "process_groups f s d gs a fs =
     (Some (a \<and> list_all (\<lambda>r. r = Some True) (outcomes f s d gs fs)), foldl (build f s d) fs gs)"
proof (induction gs arbitrary: a fs)
  case Nil
  then show ?case by simp
next
  case (Cons g gs)
  obtain b e where g: "g = (b, e)" by (cases g)
  obtain ok where c: "create_imageset f s d b e scales fs = (Some ok, build f s d fs (b, e))"
    using create_imageset_returns [of f s d b e fs]
    by (cases "create_imageset f s d b e scales fs") (auto simp: build_def)
  show ?case
    using c by (auto simp: g Cons.IH)
qed

lemma pair_order:
  "(\<lambda>(b1, e1) (b2, e2). b1 < b2 \<or> b1 = b2 \<and> e1 < e2) = ((<) :: string \<times> string \<Rightarrow> _)"
  by (auto simp: fun_eq_iff less_prod_def)

text \<open>
  Claim C9. Take a run that gets as far as listing the source directory: the source is a
  directory, the guarded delete and the creation of the destination succeed, and the root
  manifest is written. The groups discovered are those of the listed names with an image
  extension. The list the run goes through holds exactly these groups in strictly
  ascending order, pairs being compared by base name first and by extension second, and
  it is the only such list, so it is a function of the set of groups alone. The run is
  the sequence of the builds of its members in that order, each on the tree the one before
  it left: the tree the migration returns is the result of folding the builds over the
  list, and its verdict is that all of them returned success.
\<close>

theorem groups_processed_in_order:
  assumes "is_dir fs source_dir"
    and "safe_rmtree f dest_dir (project_root @ [''Sources'']) fs = (True, fs1)"
    and "makedirs f dest_dir fs1 = (True, fs2)"
    and "write_file f (dest_dir @ [''Contents.json'']) root_manifest fs2 = (True, fs3)"
    and "listdir f source_dir fs3 = Some listing"
  shows "sorted_wrt (\<lambda>(b1, e1) (b2, e2). b1 < b2 \<or> b1 = b2 \<and> e1 < e2) (sorted_groups listing)
       \<and> set (sorted_groups listing)
         = {group_of n | n. n |\<in>| listing
                            \<and> lower (suffix_of n) \<in> {''.png'', ''.jpg'', ''.jpeg''}}
       \<and> (\<forall>gs. sorted_wrt (\<lambda>(b1, e1) (b2, e2). b1 < b2 \<or> b1 = b2 \<and> e1 < e2) gs
                 \<and> set gs = set (sorted_groups listing)
               \<longrightarrow> gs = sorted_groups listing)
       \<and> migrate_assets f project_root source_dir dest_dir fs
         = (Some (list_all (\<lambda>r. r = Some True)
                    (outcomes f source_dir dest_dir (sorted_groups listing) fs3)),
            foldl (build f source_dir dest_dir) fs3 (sorted_groups listing))"
proof -
  let ?gs = "sorted_groups listing"
  have r: "?gs = sorted_list_of_set (fset (base_names listing))"
    by (simp add: sorted_groups_def sorted_list_of_fset.rep_eq)
  have s: "sorted ?gs" and d: "distinct ?gs" and m: "set ?gs = fset (base_names listing)"
    by (simp_all add: r)
  have p1: "sorted_wrt (<) ?gs"
    using s d by (simp add: strict_sorted_iff)
  have p2: "set ?gs = {group_of n | n. n |\<in>| listing
                            \<and> lower (suffix_of n) \<in> {''.png'', ''.jpg'', ''.jpeg''}}"
    unfolding m by (auto simp: base_names_def is_image_name_def image_extensions_def)
  have p3: "gs = ?gs" if "sorted_wrt (<) gs \<and> set gs = set ?gs" for gs
  proof (rule sorted_distinct_set_unique)
    show "sorted gs" "distinct gs" using that by (simp_all add: strict_sorted_iff)
    show "sorted ?gs" "distinct ?gs" by (rule s, rule d)
    show "set gs = set ?gs" using that by simp
  qed
  have "migrate_assets f project_root source_dir dest_dir fs
      = process_groups f source_dir dest_dir ?gs True fs3"
    using assms by (simp add: migrate_assets_def is_dir_exists)
  then have p4: "migrate_assets f project_root source_dir dest_dir fs
         = (Some (list_all (\<lambda>r. r = Some True) (outcomes f source_dir dest_dir ?gs fs3)),
            foldl (build f source_dir dest_dir) fs3 ?gs)"
    by (simp add: process_groups_fold)
  show ?thesis
    unfolding pair_order using p1 p2 p3 p4 by blast
qed

text \<open>
  The run on the project that holds \<^verbatim>\<open>x.png\<close> and \<^verbatim>\<open>x.jpg\<close>: the build of
  \<^verbatim>\<open>(x, .jpg)\<close> comes first and that of \<^verbatim>\<open>(x, .png)\<close> second. The order shows in the
  result, since the two builds write the same manifest file: run the other way round they
  leave a different one.
\<close>

theorem groups_processed_in_order_witness:
  "migrate_assets no_faults [''proj''] [''proj'', ''Sources'', ''Assets'']
       [''proj'', ''Sources'', ''Assets.xcassets''] clash_tree
     = (Some True,
        foldl (build no_faults [''proj'', ''Sources'', ''Assets'']
                 [''proj'', ''Sources'', ''Assets.xcassets''])
          (snd (write_file no_faults [''proj'', ''Sources'', ''Assets.xcassets'', ''Contents.json'']
                  root_manifest
                  (snd (makedirs no_faults [''proj'', ''Sources'', ''Assets.xcassets''] clash_tree))))
          [(''x'', ''.jpg''), (''x'', ''.png'')])
   \<and> node_at
        (foldl (build no_faults [''proj'', ''Sources'', ''Assets'']
                  [''proj'', ''Sources'', ''Assets.xcassets''])
           (snd (write_file no_faults [''proj'', ''Sources'', ''Assets.xcassets'', ''Contents.json'']
                   root_manifest
                   (snd (makedirs no_faults [''proj'', ''Sources'', ''Assets.xcassets''] clash_tree))))
           [(''x'', ''.png''), (''x'', ''.jpg'')])
        [''proj'', ''Sources'', ''Assets.xcassets'', ''x.imageset'', ''Contents.json'']
     \<noteq> node_at
        (foldl (build no_faults [''proj'', ''Sources'', ''Assets'']
                  [''proj'', ''Sources'', ''Assets.xcassets''])
           (snd (write_file no_faults [''proj'', ''Sources'', ''Assets.xcassets'', ''Contents.json'']
                   root_manifest
                   (snd (makedirs no_faults [''proj'', ''Sources'', ''Assets.xcassets''] clash_tree))))
           [(''x'', ''.jpg''), (''x'', ''.png'')])
        [''proj'', ''Sources'', ''Assets.xcassets'', ''x.imageset'', ''Contents.json'']"
proof -
  let ?s = "[''proj'', ''Sources'', ''Assets'']"
  let ?d = "[''proj'', ''Sources'', ''Assets.xcassets'']"
  let ?fs2 = "snd (makedirs no_faults ?d clash_tree)"
  let ?fs3 = "snd (write_file no_faults (?d @ [''Contents.json'']) root_manifest ?fs2)"
  let ?l = "the (listdir no_faults ?s ?fs3)"
  have h1: "is_dir clash_tree ?s" by code_simp
  have "fst (safe_rmtree no_faults ?d ([''proj''] @ [''Sources'']) clash_tree)
      \<and> snd (safe_rmtree no_faults ?d ([''proj''] @ [''Sources'']) clash_tree) = clash_tree"
    by (simp add: safe_rmtree_def exists_def node_at_def clash_tree_def)
  then have h2: "safe_rmtree no_faults ?d ([''proj''] @ [''Sources'']) clash_tree = (True, clash_tree)"
    by (simp add: prod_eq_iff)
  have "fst (makedirs no_faults ?d clash_tree)" by code_simp
  then have h3: "makedirs no_faults ?d clash_tree = (True, ?fs2)"
    by (simp add: prod_eq_iff)
  have "fst (write_file no_faults (?d @ [''Contents.json'']) root_manifest ?fs2)" by code_simp
  then have h4: "write_file no_faults (?d @ [''Contents.json'']) root_manifest ?fs2 = (True, ?fs3)"
    by (simp add: prod_eq_iff)
  have "listdir no_faults ?s ?fs3 \<noteq> None" by code_simp
  then have h5: "listdir no_faults ?s ?fs3 = Some ?l" by simp
  have gs: "sorted_groups ?l = [(''x'', ''.jpg''), (''x'', ''.png'')]" by code_simp
  have ok: "list_all (\<lambda>r. r = Some True)
      (outcomes no_faults ?s ?d [(''x'', ''.jpg''), (''x'', ''.png'')] ?fs3)"
    by code_simp
  have differ: "node_at (foldl (build no_faults ?s ?d) ?fs3 [(''x'', ''.png''), (''x'', ''.jpg'')])
        [''proj'', ''Sources'', ''Assets.xcassets'', ''x.imageset'', ''Contents.json'']
     \<noteq> node_at (foldl (build no_faults ?s ?d) ?fs3 [(''x'', ''.jpg''), (''x'', ''.png'')])
        [''proj'', ''Sources'', ''Assets.xcassets'', ''x.imageset'', ''Contents.json'']"
    by code_simp
  have ok': "list_all (\<lambda>r. r = Some True)
      (outcomes no_faults ?s ?d [(''x'', ''.jpg''), (''x'', ''.png'')] ?fs3) = True"
    using ok by (rule eqTrueI)
  note run = groups_processed_in_order [OF h1 h2 h3 h4 h5, unfolded gs,
      THEN conjunct2, THEN conjunct2, THEN conjunct2, unfolded ok']
  show ?thesis
    using run differ by simp
qed

subsection \<open>The manifest of an imageset\<close>

lemma build_images_step:
  assumes "variant_name b e sc = Some vn"
  shows "build_images f s d b e (sc # scs) acc fs =
     build_images f s d b e scs
       (acc @ [manifest_entry sc (if copied f s d vn fs then Some vn else None)])
       (after_variant f s d vn fs)"
proof (cases "exists fs (s @ [vn])")
  case False
  then show ?thesis
    using assms by (simp add: Let_def copied_def after_variant_def manifest_entry_def)
next
  case True
  obtain ok fs1 where c: "copy2 f (s @ [vn]) (d @ [vn]) fs = (ok, fs1)"
    by (cases "copy2 f (s @ [vn]) (d @ [vn]) fs") auto
  show ?thesis
    using assms True c
    by (cases ok) (simp_all add: Let_def copied_def after_variant_def manifest_entry_def)
qed

lemma variant_name_scales:
  "variant_name b e ''1x'' = Some (b @ e)"
  "variant_name b e ''2x'' = Some (b @ ''@2x'' @ e)"
  "variant_name b e ''3x'' = Some (b @ ''@3x'' @ e)"
  by (simp_all add: variant_name_def)

lemma build_images_scales:
  "build_images f s d b e [''1x'', ''2x'', ''3x''] [] fs =
     (Some [manifest_entry ''1x'' (if copied f s d (b @ e) fs then Some (b @ e) else None),
            manifest_entry ''2x''
              (if copied f s d (b @ ''@2x'' @ e) (after_variant f s d (b @ e) fs)
               then Some (b @ ''@2x'' @ e) else None),
            manifest_entry ''3x''
              (if copied f s d (b @ ''@3x'' @ e)
                   (after_variant f s d (b @ ''@2x'' @ e) (after_variant f s d (b @ e) fs))
               then Some (b @ ''@3x'' @ e) else None)],
      after_variant f s d (b @ ''@3x'' @ e)
        (after_variant f s d (b @ ''@2x'' @ e) (after_variant f s d (b @ e) fs)))"
  by (simp only: build_images_step [OF variant_name_scales(1)]
      build_images_step [OF variant_name_scales(2)]
      build_images_step [OF variant_name_scales(3)] build_images.simps(1) append.simps)

text \<open>
  Claim C7: when the builder reports success, \<^verbatim>\<open>Contents.json\<close> of the imageset holds
  the three entries in the order 1x, 2x, 3x, each with the idiom \<^verbatim>\<open>universal\<close> and its
  scale, followed by the fixed info block. An entry carries the variant's file name
  exactly when the variant existed in the source directory at its turn and its copy went
  through.
\<close>

theorem manifest_written:
  assumes "fst (create_imageset f source_dir dest_dir base_name ext scales fs) = Some True"
  shows "node_at (snd (create_imageset f source_dir dest_dir base_name ext scales fs))
           (dest_dir @ [base_name @ ''.imageset'', ''Contents.json''])
         = Some (File (JsonDoc (JObj
             [(''images'', JArr
                [manifest_entry ''1x''
                   (if copied f source_dir (dest_dir @ [base_name @ ''.imageset''])
                         (base_name @ ext)
                         (snd (makedirs f (dest_dir @ [base_name @ ''.imageset'']) fs))
                    then Some (base_name @ ext) else None),
                 manifest_entry ''2x''
                   (if copied f source_dir (dest_dir @ [base_name @ ''.imageset''])
                         (base_name @ ''@2x'' @ ext)
                         (after_variant f source_dir (dest_dir @ [base_name @ ''.imageset''])
                            (base_name @ ext)
                            (snd (makedirs f (dest_dir @ [base_name @ ''.imageset'']) fs)))
                    then Some (base_name @ ''@2x'' @ ext) else None),
                 manifest_entry ''3x''
                   (if copied f source_dir (dest_dir @ [base_name @ ''.imageset''])
                         (base_name @ ''@3x'' @ ext)
                         (after_variant f source_dir (dest_dir @ [base_name @ ''.imageset''])
                            (base_name @ ''@2x'' @ ext)
                            (after_variant f source_dir (dest_dir @ [base_name @ ''.imageset''])
                               (base_name @ ext)
                               (snd (makedirs f (dest_dir @ [base_name @ ''.imageset'']) fs))))
                    then Some (base_name @ ''@3x'' @ ext) else None)]),
              (''info'', JObj [(''author'', JStr ''xcode''), (''version'', JInt 1)])])))"
proof -
  let ?d = "dest_dir @ [base_name @ ''.imageset'']"
  obtain ok1 fs1 where m: "makedirs f ?d fs = (ok1, fs1)"
    by (cases "makedirs f ?d fs") auto
  obtain imgs fs2 where b: "build_images f source_dir ?d base_name ext [''1x'', ''2x'', ''3x''] [] fs1 = (Some imgs, fs2)"
    using build_images_scales [of f source_dir ?d base_name ext fs1] by blast
  obtain ok3 fs3 where w: "write_file f (?d @ [''Contents.json''])
      (JsonDoc (JObj [(''images'', JArr imgs), (''info'', info_block)])) fs2 = (ok3, fs3)"
    by (cases "write_file f (?d @ [''Contents.json''])
      (JsonDoc (JObj [(''images'', JArr imgs), (''info'', info_block)])) fs2") auto
  have c: "create_imageset f source_dir dest_dir base_name ext scales fs =
      (if ok1 then (Some ok3, fs3) else (Some False, fs1))"
    using m b w by (cases ok1; cases ok3) (simp_all add: create_imageset_def scales_def Let_def)
  have ok: "ok1" "ok3" using assms c by (auto split: if_splits)
  have "fmlookup fs3 (?d @ [''Contents.json'']) =
      Some (File (JsonDoc (JObj [(''images'', JArr imgs), (''info'', info_block)])))"
    using write_file_lookup [OF w] ok by simp
  then have "node_at (snd (create_imageset f source_dir dest_dir base_name ext scales fs))
      (?d @ [''Contents.json'']) =
      Some (File (JsonDoc (JObj [(''images'', JArr imgs), (''info'', info_block)])))"
    using c ok by (simp add: node_at_def)
  moreover have "fs1 = snd (makedirs f ?d fs)" using m by simp
  moreover note b [unfolded build_images_scales]
  ultimately show ?thesis
    by (simp add: info_block_def)
qed

text \<open>
  The image \<^verbatim>\<open>y.jpg\<close> of the sample project has no siblings: its manifest names the file
  in the first entry and leaves the entries of 2x and 3x without a file name.
\<close>

theorem manifest_written_witness:
  "fst (create_imageset no_faults [''proj'', ''Sources'', ''Assets''] [''proj'', ''Out'']
          ''y'' ''.jpg'' scales sample_tree) = Some True
   \<and> node_at (snd (create_imageset no_faults [''proj'', ''Sources'', ''Assets''] [''proj'', ''Out'']
          ''y'' ''.jpg'' scales sample_tree))
        [''proj'', ''Out'', ''y.imageset'', ''Contents.json'']
      = Some (File (JsonDoc (JObj
          [(''images'', JArr
             [JObj [(''idiom'', JStr ''universal''), (''scale'', JStr ''1x''),
                    (''filename'', JStr ''y.jpg'')],
              JObj [(''idiom'', JStr ''universal''), (''scale'', JStr ''2x'')],
              JObj [(''idiom'', JStr ''universal''), (''scale'', JStr ''3x'')]]),
           (''info'', JObj [(''author'', JStr ''xcode''), (''version'', JInt 1)])])))"
proof -
  let ?s = "[''proj'', ''Sources'', ''Assets'']" and ?d = "[''proj'', ''Out'', ''y.imageset'']"
  have h: "fst (create_imageset no_faults ?s [''proj'', ''Out''] ''y'' ''.jpg'' scales sample_tree)
      = Some True"
    by code_simp
  let ?t1 = "snd (makedirs no_faults ?d sample_tree)"
  have c1: "copied no_faults ?s ?d ''y.jpg'' ?t1" by code_simp
  let ?t2 = "after_variant no_faults ?s ?d ''y.jpg'' ?t1"
  have c2: "\<not> copied no_faults ?s ?d ''y@2x.jpg'' ?t2" by code_simp
  let ?t3 = "after_variant no_faults ?s ?d ''y@2x.jpg'' ?t2"
  have c3: "\<not> copied no_faults ?s ?d ''y@3x.jpg'' ?t3" by code_simp
  show ?thesis
    using manifest_written [OF h] h c1 c2 c3 by (simp add: manifest_entry_def)
qed

subsection \<open>Three runs\<close>

text \<open>
  Claim C5 says that two distinct groups never share or overwrite one output directory.
  The directory of a group is named after the base name alone, so the groups of
  \<^verbatim>\<open>x.jpg\<close> and \<^verbatim>\<open>x.png\<close> are both built in \<^verbatim>\<open>x.imageset\<close>: after a run that
  reports success it holds both images and one manifest, that of the group built last,
  which does not mention \<^verbatim>\<open>x.jpg\<close>.
\<close>

theorem same_base_shares_imageset:
  "sorted_groups {|''x.png'', ''x.jpg''|} = [(''x'', ''.jpg''), (''x'', ''.png'')]
   \<and> map_option fst (main sample_host no_faults clash_tree) = Some 0
   \<and> map_option
        (\<lambda>r. node_at (snd r) [''proj'', ''Sources'', ''Assets.xcassets'', ''x.imageset'', ''x.jpg''])
        (main sample_host no_faults clash_tree)
       = Some (Some (File (Blob ''J'')))
   \<and> map_option
        (\<lambda>r. node_at (snd r) [''proj'', ''Sources'', ''Assets.xcassets'', ''x.imageset'', ''x.png''])
        (main sample_host no_faults clash_tree)
       = Some (Some (File (Blob ''P'')))
   \<and> map_option
        (\<lambda>r. node_at (snd r)
               [''proj'', ''Sources'', ''Assets.xcassets'', ''x.imageset'', ''Contents.json''])
        (main sample_host no_faults clash_tree)
       = Some (Some (File (JsonDoc (JObj
          [(''images'', JArr
             [JObj [(''idiom'', JStr ''universal''), (''scale'', JStr ''1x''),
                    (''filename'', JStr ''x.png'')],
              JObj [(''idiom'', JStr ''universal''), (''scale'', JStr ''2x'')],
              JObj [(''idiom'', JStr ''universal''), (''scale'', JStr ''3x'')]]),
           (''info'', JObj [(''author'', JStr ''xcode''), (''version'', JInt 1)])]))))"
  by code_simp

text \<open>
  Claim C2 as stated has the exit status 1 after a failed copy. In the sample project,
  with the copy of \<^verbatim>\<open>logo@2x.png\<close> refused, the manifest of the group is written, its
  entry for 2x has no file name, and the exit status is 0.
\<close>

theorem copy_failure_exit_status_counterexample:
  "exists sample_tree [''proj'', ''Sources'', ''Assets'', ''logo@2x.png'']
   \<and> \<not> fst (copy2 (copy_refused [''proj'', ''Sources'', ''Assets'', ''logo@2x.png''])
        [''proj'', ''Sources'', ''Assets'', ''logo@2x.png'']
        [''proj'', ''Sources'', ''Assets.xcassets'', ''logo.imageset'', ''logo@2x.png'']
        sample_tree)
   \<and> map_option fst
        (main sample_host (copy_refused [''proj'', ''Sources'', ''Assets'', ''logo@2x.png''])
           sample_tree)
       = Some 0
   \<and> map_option
        (\<lambda>r. node_at (snd r)
               [''proj'', ''Sources'', ''Assets.xcassets'', ''logo.imageset'', ''Contents.json''])
        (main sample_host (copy_refused [''proj'', ''Sources'', ''Assets'', ''logo@2x.png''])
           sample_tree)
       = Some (Some (File (JsonDoc (JObj
          [(''images'', JArr
             [JObj [(''idiom'', JStr ''universal''), (''scale'', JStr ''1x''),
                    (''filename'', JStr ''logo.png'')],
              JObj [(''idiom'', JStr ''universal''), (''scale'', JStr ''2x'')],
              JObj [(''idiom'', JStr ''universal''), (''scale'', JStr ''3x''),
                    (''filename'', JStr ''logo@3x.png'')]]),
           (''info'', JObj [(''author'', JStr ''xcode''), (''version'', JInt 1)])]))))"
  by code_simp

text \<open>
  Claim C4 as stated has every subdirectory and every file without an image extension
  ignored and absent from the destination. A subdirectory named \<^verbatim>\<open>icons.png\<close> is
  grouped and gets an imageset; and the file \<^verbatim>\<open>.png\<close>, whose extension is empty, is
  copied as the 1x variant of the group that \<^verbatim>\<open>@2x.png\<close> gives rise to.
\<close>

theorem subdirectory_grouped_counterexample:
  "is_dir odd_tree [''proj'', ''Sources'', ''Assets'', ''icons.png'']
   \<and> map_option sorted_groups (listdir no_faults [''proj'', ''Sources'', ''Assets''] odd_tree)
       = Some [([], ''.png''), (''icons'', ''.png'')]
   \<and> map_option
        (\<lambda>r. is_dir (snd r) [''proj'', ''Sources'', ''Assets.xcassets'', ''icons.imageset''])
        (main sample_host no_faults odd_tree)
       = Some True
   \<and> \<not> is_image_name ''.png''
   \<and> map_option
        (\<lambda>r. node_at (snd r) [''proj'', ''Sources'', ''Assets.xcassets'', ''.imageset'', ''.png''])
        (main sample_host no_faults odd_tree)
       = Some (Some (File (Blob ''H'')))"
  by code_simp

subsection \<open>What the migration leaves alone\<close>

lemma safe_rmtree_guard:
  "safe_rmtree f p e fs =
     (if \<not> exists fs p then (True, fs)
      else if guard_passes p e then rmtree f p fs else (False, fs))"
  by (auto simp: safe_rmtree_def guard_passes_def Let_def split: option.split)

lemma guard_passes_nonroot: "guard_passes p e \<Longrightarrow> p \<noteq> []"
  by (auto simp: guard_passes_def str_of_def)

lemma migrate_assets_eq:
  "migrate_assets f root s d fs =
     (if \<not> is_dir fs s then (Some False, fs)
      else case safe_rmtree f d (root @ [''Sources'']) fs of
        (False, fs1) \<Rightarrow> (Some False, fs1)
      | (True, fs1) \<Rightarrow>
          (case makedirs f d fs1 of
             (False, fs2) \<Rightarrow> (Some False, fs2)
           | (True, fs2) \<Rightarrow> populate f s d fs2))"
  by (auto simp: migrate_assets_def populate_def Let_def is_dir_exists
      split: prod.split bool.split)

lemma same_outside_refl [simp]: "same_outside d fs fs"
  by (simp add: same_outside_def)

lemma same_outside_trans:
  "same_outside d a b \<Longrightarrow> same_outside d b c \<Longrightarrow> same_outside d a c"
  by (simp add: same_outside_def)

lemma same_outside_weaken:
  "same_outside d fs fs' \<Longrightarrow> prefix d' d \<Longrightarrow> same_outside d' fs fs'"
  unfolding same_outside_def using prefix_order.trans by blast

lemma same_outside_mkdir: "mkdir f p fs = (ok, fs') \<Longrightarrow> same_outside p fs fs'"
  by (auto simp: mkdir_def same_outside_def split: if_splits)

lemma same_outside_write_file: "write_file f p c fs = (ok, fs') \<Longrightarrow> same_outside p fs fs'"
  by (auto simp: write_file_def same_outside_def split: if_splits)

lemma same_outside_copy2: "copy2 f src dst fs = (ok, fs') \<Longrightarrow> same_outside dst fs fs'"
  by (auto simp: copy2_def Let_def same_outside_def split: if_splits option.splits node.splits)

lemma makedirs_in_dir:
  assumes "p \<noteq> []" "is_dir fs (butlast p)"
  shows "makedirs f p fs =
     (case mkdir f p fs of (True, fs2) \<Rightarrow> (True, fs2) | (False, fs2) \<Rightarrow> (is_dir fs2 p, fs2))"
  using assms by (subst makedirs.simps) (simp add: is_dir_exists)

lemma same_outside_makedirs_in_dir:
  assumes "p \<noteq> []" "is_dir fs (butlast p)" "makedirs f p fs = (ok, fs')"
  shows "same_outside p fs fs'"
proof -
  obtain ok2 fs2 where m: "mkdir f p fs = (ok2, fs2)" by (cases "mkdir f p fs") auto
  have "fs' = fs2"
    using assms(3) m by (cases ok2) (simp_all add: makedirs_in_dir [OF assms(1,2)])
  with same_outside_mkdir [OF m] show ?thesis by simp
qed

lemma same_outside_build_images:
  "build_images f s d b e scs acc fs = (r, fs') \<Longrightarrow> same_outside d fs fs'"
proof (induction scs arbitrary: acc fs)
  case Nil
  then show ?case by simp
next
  case (Cons sc scs)
  show ?case
  proof (cases "variant_name b e sc")
    case None
    then show ?thesis using Cons.prems by simp
  next
    case (Some vn)
    show ?thesis
    proof (cases "exists fs (s @ [vn])")
      case False
      then show ?thesis using Cons.prems Some Cons.IH by (simp add: Let_def)
    next
      case True
      obtain ok fs1 where c: "copy2 f (s @ [vn]) (d @ [vn]) fs = (ok, fs1)"
        by (cases "copy2 f (s @ [vn]) (d @ [vn]) fs") auto
      have "same_outside d fs fs1"
        using same_outside_copy2 [OF c] by (rule same_outside_weaken) simp
      moreover have "same_outside d fs1 fs'"
        using Cons.prems Some True c Cons.IH by (cases ok) (auto simp: Let_def)
      ultimately show ?thesis by (rule same_outside_trans)
    qed
  qed
qed

lemma same_outside_create_imageset:
  assumes "is_dir fs d" "create_imageset f s d b e scs fs = (r, fs')"
  shows "same_outside (d @ [b @ ''.imageset'']) fs fs'"
proof -
  let ?i = "d @ [b @ ''.imageset'']"
  obtain ok1 fs1 where m: "makedirs f ?i fs = (ok1, fs1)"
    by (cases "makedirs f ?i fs") auto
  have k1: "same_outside ?i fs fs1"
    using same_outside_makedirs_in_dir [OF _ _ m] assms(1) by simp
  show ?thesis
  proof (cases ok1)
    case False
    then show ?thesis using assms(2) m k1 by (simp add: create_imageset_def Let_def)
  next
    case True
    obtain r2 fs2 where b: "build_images f s ?i b e scs [] fs1 = (r2, fs2)"
      by (cases "build_images f s ?i b e scs [] fs1") auto
    have k2: "same_outside ?i fs1 fs2" using b by (rule same_outside_build_images)
    show ?thesis
    proof (cases r2)
      case None
      then show ?thesis using assms(2) m True b k1 k2 same_outside_trans
        by (auto simp: create_imageset_def Let_def)
    next
      case (Some imgs)
      obtain ok3 fs3 where w: "write_file f (?i @ [''Contents.json''])
          (JsonDoc (JObj [(''images'', JArr imgs), (''info'', info_block)])) fs2 = (ok3, fs3)"
        by (cases "write_file f (?i @ [''Contents.json''])
          (JsonDoc (JObj [(''images'', JArr imgs), (''info'', info_block)])) fs2") auto
      have k3: "same_outside ?i fs2 fs3"
        using same_outside_write_file [OF w] by (rule same_outside_weaken) simp
      have "fs' = fs3"
        using assms(2) m True b Some w by (cases ok3) (auto simp: create_imageset_def Let_def)
      then show ?thesis using k1 k2 k3 same_outside_trans by blast
    qed
  qed
qed

lemma process_groups_frame:
  assumes "is_dir fs d" "process_groups f s d gs a fs = (r, fs')"
    and "\<forall>(b, e) \<in> set gs. \<not> prefix (d @ [b @ ''.imageset'']) q"
  shows "fmlookup fs' q = fmlookup fs q"
  using assms
proof (induction gs arbitrary: a fs)
  case Nil
  then show ?case by simp
next
  case (Cons g gs)
  obtain b e where g: "g = (b, e)" by (cases g)
  obtain r1 fs1 where c: "create_imageset f s d b e scales fs = (r1, fs1)"
    by (cases "create_imageset f s d b e scales fs") auto
  have q: "\<not> prefix (d @ [b @ ''.imageset'']) q" using Cons.prems(3) g by simp
  have k1: "fmlookup fs1 q = fmlookup fs q"
    using same_outside_create_imageset [OF Cons.prems(1) c] q by (simp add: same_outside_def)
  have d1: "is_dir fs1 d"
    using dirs_kept_create_imageset [OF c] Cons.prems(1) by (simp add: dirs_kept_def)
  show ?case
  proof (cases r1)
    case None
    then show ?thesis using Cons.prems(2) g c k1 by simp
  next
    case (Some ok)
    have "process_groups f s d gs (if \<not> ok then False else a) fs1 = (r, fs')"
      using Cons.prems(2) g c Some by simp
    from Cons.IH [OF d1 this] Cons.prems(3) k1 show ?thesis by simp
  qed
qed

lemma process_groups_below:
  assumes "is_dir fs d" "process_groups f s d gs a fs = (r, fs')" "\<not> strict_prefix d q"
  shows "fmlookup fs' q = fmlookup fs q"
proof (rule process_groups_frame [OF assms(1,2)])
  show "\<forall>(b, e) \<in> set gs. \<not> prefix (d @ [b @ ''.imageset'']) q"
    using assms(3) by (auto simp: prefix_def strict_prefix_def)
qed

lemma populate_below:
  assumes "is_dir fs d" "populate f s d fs = (r, fs')" "\<not> strict_prefix d q"
  shows "fmlookup fs' q = fmlookup fs q"
proof -
  obtain ok3 fs3 where w: "write_file f (d @ [''Contents.json'']) root_manifest fs = (ok3, fs3)"
    by (cases "write_file f (d @ [''Contents.json'']) root_manifest fs") auto
  have q: "q \<noteq> d @ [''Contents.json'']" using assms(3) by (auto simp: strict_prefix_def)
  have k3: "fmlookup fs3 q = fmlookup fs q"
    using write_file_lookup [OF w, of q] q by simp
  have d3: "is_dir fs3 d"
    using dirs_kept_write_file [OF w] assms(1) by (simp add: dirs_kept_def)
  show ?thesis
  proof (cases ok3)
    case False
    then show ?thesis using assms(2) w k3 by (simp add: populate_def)
  next
    case True
    show ?thesis
    proof (cases "listdir f s fs3")
      case None
      then show ?thesis using assms(2) w True k3 by (simp add: populate_def)
    next
      case (Some listing)
      then have "process_groups f s d (sorted_groups listing) True fs3 = (r, fs')"
        using assms(2) w True by (simp add: populate_def)
      from process_groups_below [OF d3 this assms(3)] k3 show ?thesis by simp
    qed
  qed
qed

lemma makedirs_changes:
  "makedirs f p fs = (ok, fs') \<Longrightarrow> fmlookup fs' q \<noteq> fmlookup fs q \<Longrightarrow>
   prefix q p \<and> fmlookup fs q = None \<and> fmlookup fs' q = Some Dir"
proof (induction f p fs arbitrary: ok fs' rule: makedirs.induct)
  case (1 f p fs)
  let ?r = "if p \<noteq> [] \<and> \<not> exists fs (butlast p) then makedirs f (butlast p) fs else (True, fs)"
  obtain ok1 fs1 where r: "?r = (ok1, fs1)" by (cases ?r) auto
  have k1: "prefix q p \<and> fmlookup fs q = None \<and> fmlookup fs1 q = Some Dir"
    if "fmlookup fs1 q \<noteq> fmlookup fs q"
  proof -
    have rec: "p \<noteq> [] \<and> \<not> exists fs (butlast p)" and m: "makedirs f (butlast p) fs = (ok1, fs1)"
      using r that by (auto split: if_splits)
    from "1.IH" [OF rec m that] have "prefix q (butlast p)" "fmlookup fs q = None"
      "fmlookup fs1 q = Some Dir" by auto
    moreover have "prefix (butlast p) p" by (rule prefixeq_butlast)
    ultimately show ?thesis using prefix_order.trans by blast
  qed
  obtain ok2 fs2 where m: "mkdir f p fs1 = (ok2, fs2)" by (cases "mkdir f p fs1") auto
  have k2: "fmlookup fs2 q = (if ok2 \<and> q = p then Some Dir else fmlookup fs1 q)"
    using m by (rule mkdir_lookup)
  have n2: "ok2 \<Longrightarrow> fmlookup fs1 p = None \<and> p \<noteq> []"
    using m by (auto simp: mkdir_def exists_def node_at_def split: if_splits)
  have f2: "\<not> ok2 \<Longrightarrow> fs2 = fs1"
    using m by (auto simp: mkdir_def split: if_splits)
  have e: "fs' = fs1 \<or> (ok2 \<and> fs' = fs2)"
    using "1.prems"(1) r m f2
    by (subst (asm) makedirs.simps) (auto split: if_splits bool.splits)
  show ?case
  proof (cases "fmlookup fs1 q = fmlookup fs q")
    case True
    then have "ok2" "fs' = fs2" "q = p" using e "1.prems"(2) k2 by (auto split: if_splits)
    then show ?thesis using k2 n2 True by auto
  next
    case False
    from k1 [OF False] have a: "prefix q p" "fmlookup fs q = None" "fmlookup fs1 q = Some Dir"
      by auto
    then have "q \<noteq> p \<or> \<not> ok2" using n2 by auto
    then have "fmlookup fs2 q = Some Dir" using k2 a by auto
    then show ?thesis using a e by auto
  qed
qed

subsection \<open>Running the migration twice\<close>

lemma wf_fs_parent:
  "wf_fs fs \<Longrightarrow> fmlookup fs p \<noteq> None \<Longrightarrow> p \<noteq> [] \<Longrightarrow> is_dir fs (butlast p)"
  by (auto simp: wf_fs_def fmlookup_dom_iff)

lemma absent_subtree:
  assumes "wf_fs fs" "\<not> exists fs d"
  shows "fmlookup fs (d @ r) = None"
proof (induction r rule: rev_induct)
  case Nil
  then show ?case using assms(2) by (auto simp: exists_def node_at_def split: if_splits)
next
  case (snoc x r)
  have d: "d \<noteq> []" using assms(2) by (auto simp: exists_def node_at_def)
  show ?case
  proof (rule ccontr)
    assume "fmlookup fs (d @ r @ [x]) \<noteq> None"
    then have "is_dir fs (butlast (d @ r @ [x]))"
      by (rule wf_fs_parent [OF assms(1)]) simp
    then have "is_dir fs (d @ r)" by (simp add: butlast_append)
    then show False using snoc d by (simp add: is_dir_def node_at_def)
  qed
qed

lemma absent_clear:
  "wf_fs fs \<Longrightarrow> \<not> exists fs d \<Longrightarrow> prefix d q \<Longrightarrow> fmlookup fs q = None"
  by (auto simp: prefix_def absent_subtree)

lemma not_prefix_butlast: "p \<noteq> [] \<Longrightarrow> prefix p q \<Longrightarrow> \<not> prefix q (butlast p)"
proof
  assume "p \<noteq> []" "prefix p q" "prefix q (butlast p)"
  then have "length p \<le> length q" "length q \<le> length p - 1"
    by (auto dest: prefix_length_le)
  with \<open>p \<noteq> []\<close> show False by (cases p) auto
qed

lemma makedirs_steps:
  assumes "makedirs f p fs = (ok, fs')"
  obtains ok1 fs1 ok2 fs2 where
    "(if p \<noteq> [] \<and> \<not> exists fs (butlast p) then makedirs f (butlast p) fs else (True, fs)) = (ok1, fs1)"
    "mkdir f p fs1 = (ok2, fs2)"
    "(ok, fs') = (if \<not> ok1 then (False, fs1) else if ok2 then (True, fs2) else (is_dir fs1 p, fs1))"
proof -
  let ?r = "if p \<noteq> [] \<and> \<not> exists fs (butlast p) then makedirs f (butlast p) fs else (True, fs)"
  obtain ok1 fs1 where r: "?r = (ok1, fs1)" by (cases ?r) auto
  obtain ok2 fs2 where m: "mkdir f p fs1 = (ok2, fs2)" by (cases "mkdir f p fs1") auto
  have f2: "\<not> ok2 \<Longrightarrow> fs2 = fs1" using m by (auto simp: mkdir_def split: if_splits)
  have "(ok, fs') = (if \<not> ok1 then (False, fs1) else if ok2 then (True, fs2) else (is_dir fs1 p, fs1))"
    using assms r m f2 by (subst (asm) makedirs.simps) (auto split: if_splits bool.splits)
  with r m show ?thesis using that by blast
qed

lemma parent_changes:
  assumes "(if p \<noteq> [] \<and> \<not> exists fs (butlast p) then makedirs f (butlast p) fs else (True, fs)) = (ok1, fs1)"
    and "p \<noteq> []" "prefix p q"
  shows "fmlookup fs1 q = fmlookup fs q"
proof (cases "p \<noteq> [] \<and> \<not> exists fs (butlast p)")
  case False
  then show ?thesis using assms(1) by auto
next
  case True
  then have m: "makedirs f (butlast p) fs = (ok1, fs1)" using assms(1) by simp
  show ?thesis
    using makedirs_changes [OF m, of q] not_prefix_butlast [OF assms(2,3)] by blast
qed

lemma makedirs_fail_target:
  assumes "makedirs f p fs = (False, fs')" "p \<noteq> []"
  shows "fmlookup fs' p = fmlookup fs p"
proof -
  from assms(1) obtain ok1 fs1 ok2 fs2 where
    r: "(if p \<noteq> [] \<and> \<not> exists fs (butlast p) then makedirs f (butlast p) fs else (True, fs)) = (ok1, fs1)"
    and m: "mkdir f p fs1 = (ok2, fs2)"
    and e: "(False, fs') = (if \<not> ok1 then (False, fs1) else if ok2 then (True, fs2) else (is_dir fs1 p, fs1))"
    by (rule makedirs_steps)
  have "fs' = fs1" using e by (auto split: if_splits)
  then show ?thesis using parent_changes [OF r assms(2), of p] by simp
qed

lemma makedirs_fail_again:
  "makedirs f p fs = (False, fs') \<Longrightarrow> makedirs f p fs' = (False, fs')"
proof (induction f p fs arbitrary: fs' rule: makedirs.induct)
  case (1 f p fs)
  from "1.prems" obtain ok1 fs1 ok2 fs2 where
    r: "(if p \<noteq> [] \<and> \<not> exists fs (butlast p) then makedirs f (butlast p) fs else (True, fs)) = (ok1, fs1)"
    and m: "mkdir f p fs1 = (ok2, fs2)"
    and e: "(False, fs') = (if \<not> ok1 then (False, fs1) else if ok2 then (True, fs2) else (is_dir fs1 p, fs1))"
    by (rule makedirs_steps)
  have fs': "fs' = fs1" using e by (auto split: if_splits)
  show ?case
  proof (cases ok1)
    case False
    then have rec: "p \<noteq> [] \<and> \<not> exists fs (butlast p)"
      and mk: "makedirs f (butlast p) fs = (False, fs1)"
      using r by (auto split: if_splits)
    have again: "makedirs f (butlast p) fs1 = (False, fs1)"
      using "1.IH" [OF rec mk] .
    have b: "butlast p \<noteq> []" using rec by auto
    have "fmlookup fs1 (butlast p) = fmlookup fs (butlast p)"
      using makedirs_fail_target [OF mk b] .
    then have "\<not> exists fs1 (butlast p)"
      using rec b by (simp add: exists_def node_at_def)
    then show ?thesis
      using rec again fs' by (subst makedirs.simps) simp
  next
    case True
    then have ok2: "\<not> ok2" and nd: "\<not> is_dir fs1 p" using e by (auto split: if_splits)
    have norec: "\<not> (p \<noteq> [] \<and> \<not> exists fs1 (butlast p))"
    proof (cases "p \<noteq> [] \<and> \<not> exists fs (butlast p)")
      case True
      then have "makedirs f (butlast p) fs = (True, fs1)" using r \<open>ok1\<close> by simp
      then have "is_dir fs1 (butlast p)" by (rule makedirs_ok_is_dir)
      then show ?thesis by (simp add: is_dir_exists)
    next
      case False
      then show ?thesis using r by auto
    qed
    have "fs2 = fs1" using m ok2 by (auto simp: mkdir_def split: if_splits)
    then show ?thesis
      using norec m ok2 nd fs' by (subst makedirs.simps) auto
  qed
qed

lemma makedirs_rebuild:
  assumes clear: "\<forall>q. prefix p q \<longrightarrow> fmlookup fs q = None" and "p \<noteq> []"
    and mk: "makedirs f p fs = (True, fsA)"
  shows "makedirs f p (fmfilter (\<lambda>q. \<not> prefix p q) fsA) = (True, fsA)"
proof -
  from mk obtain ok1 fs1 ok2 fs2 where
    r: "(if p \<noteq> [] \<and> \<not> exists fs (butlast p) then makedirs f (butlast p) fs else (True, fs)) = (ok1, fs1)"
    and m: "mkdir f p fs1 = (ok2, fs2)"
    and e: "(True, fsA) = (if \<not> ok1 then (False, fs1) else if ok2 then (True, fs2) else (is_dir fs1 p, fs1))"
    by (rule makedirs_steps)
  have same: "fmlookup fs1 q = None" if "prefix p q" for q
    using parent_changes [OF r assms(2) that] clear that by simp
  then have "fmlookup fs1 p = None" by simp
  then have nd: "\<not> is_dir fs1 p" using assms(2) by (simp add: is_dir_def node_at_def)
  have ok: "ok1" "ok2" "fsA = fs2" using e nd by (auto split: if_splits)
  have par: "is_dir fs1 (butlast p)" and fsA: "fsA = fmupd p Dir fs1"
    using m ok by (auto simp: mkdir_def split: if_splits)
  have restored: "fmfilter (\<lambda>q. \<not> prefix p q) fsA = fs1"
  proof (rule fmap_ext)
    fix q
    show "fmlookup (fmfilter (\<lambda>q. \<not> prefix p q) fsA) q = fmlookup fs1 q"
      using same [of q] by (auto simp: fsA)
  qed
  show ?thesis
    unfolding restored using par m ok assms(2)
    by (simp add: makedirs_in_dir)
qed

lemma rerun_after_reset:
  assumes clear: "\<forall>q. prefix d q \<longrightarrow> fmlookup fsR q = None" and d: "d \<noteq> []"
  shows "snd (migrate_assets f root s d
           (snd (case makedirs f d fsR of
                   (False, fs2) \<Rightarrow> (Some False, fs2)
                 | (True, fs2) \<Rightarrow> populate f s d fs2)))
         = snd (case makedirs f d fsR of
                   (False, fs2) \<Rightarrow> (Some False, fs2)
                 | (True, fs2) \<Rightarrow> populate f s d fs2)"
proof -
  obtain ok fsA where m: "makedirs f d fsR = (ok, fsA)" by (cases "makedirs f d fsR") auto
  show ?thesis
  proof (cases ok)
    case False
    have "fmlookup fsA d = None"
      using makedirs_fail_target [of f d fsR fsA] m False d clear by simp
    then have ne: "\<not> exists fsA d" using d by (simp add: exists_def node_at_def)
    have again: "makedirs f d fsA = (False, fsA)"
      using makedirs_fail_again [of f d fsR fsA] m False by simp
    have "snd (migrate_assets f root s d fsA) = fsA"
      using ne again by (simp add: migrate_assets_eq safe_rmtree_guard)
    then show ?thesis using m False by simp
  next
    case True
    then have mA: "makedirs f d fsR = (True, fsA)" using m by simp
    have dA: "is_dir fsA d" using mA by (rule makedirs_ok_is_dir)
    obtain r fs1 where p: "populate f s d fsA = (r, fs1)" by (cases "populate f s d fsA") auto
    have below: "fmlookup fs1 q = fmlookup fsA q" if "\<not> strict_prefix d q" for q
      using populate_below [OF dA p that] .
    have d1: "is_dir fs1 d"
      using dA below [of d] d by (simp add: is_dir_def node_at_def)
    have filt: "fmfilter (\<lambda>q. \<not> prefix d q) fs1 = fmfilter (\<lambda>q. \<not> prefix d q) fsA"
    proof (rule fmap_ext)
      fix q
      show "fmlookup (fmfilter (\<lambda>q. \<not> prefix d q) fs1) q
          = fmlookup (fmfilter (\<lambda>q. \<not> prefix d q) fsA) q"
        using below [of q] by (auto simp: strict_prefix_def)
    qed
    have re: "makedirs f d (fmfilter (\<lambda>q. \<not> prefix d q) fs1) = (True, fsA)"
      unfolding filt using clear d mA by (rule makedirs_rebuild)
    have "snd (migrate_assets f root s d fs1) = fs1"
      using d1 re p
      by (simp add: migrate_assets_eq safe_rmtree_guard rmtree_def is_dir_exists)
    then show ?thesis using mA p by simp
  qed
qed

text \<open>
  Claim C8 (idempotence): a second run, started on the tree the first run left and under
  the same operating-system behaviour, leaves exactly that tree; in particular the
  destination tree is the same after each run. This holds for every well-formed tree,
  every source and destination and every outcome of the first run: the second run either
  stops before it changes anything, or removes the destination and rebuilds it from the
  same state the first run built it from.
\<close>

theorem migrate_twice:
  assumes "wf_fs fs"
  shows "snd (migrate_assets f project_root source_dir dest_dir
           (snd (migrate_assets f project_root source_dir dest_dir fs)))
         = snd (migrate_assets f project_root source_dir dest_dir fs)"
proof -
  let ?M = "migrate_assets f project_root source_dir dest_dir"
  let ?T = "\<lambda>fsR. case makedirs f dest_dir fsR of
                   (False, fs2) \<Rightarrow> (Some False, fs2)
                 | (True, fs2) \<Rightarrow> populate f source_dir dest_dir fs2"
  let ?e = "project_root @ [''Sources'']"
  show ?thesis
  proof (cases "is_dir fs source_dir")
    case False
    then have "?M fs = (Some False, fs)" by (simp add: migrate_assets_eq)
    then show ?thesis by simp
  next
    case src: True
    show ?thesis
    proof (cases "exists fs dest_dir")
      case False
      have run: "?M fs = ?T fs"
        using src False by (simp add: migrate_assets_eq safe_rmtree_guard)
      have c: "\<forall>q. prefix dest_dir q \<longrightarrow> fmlookup fs q = None"
        using absent_clear [OF assms False] by blast
      have d: "dest_dir \<noteq> []" using False by auto
      show ?thesis
        unfolding run using c d by (rule rerun_after_reset)
    next
      case True
      show ?thesis
      proof (cases "guard_passes dest_dir ?e \<and> is_dir fs dest_dir \<and> \<not> rmtree_fails f dest_dir")
        case False
        then have "?M fs = (Some False, fs)"
          using src True by (auto simp: migrate_assets_eq safe_rmtree_guard rmtree_def)
        then show ?thesis by simp
      next
        case pass: True
        have run: "?M fs = ?T (fmfilter (\<lambda>q. \<not> prefix dest_dir q) fs)"
          using src True pass by (simp add: migrate_assets_eq safe_rmtree_guard rmtree_def)
        have c: "\<forall>q. prefix dest_dir q \<longrightarrow>
            fmlookup (fmfilter (\<lambda>q. \<not> prefix dest_dir q) fs) q = None"
          by simp
        have d: "dest_dir \<noteq> []" using pass guard_passes_nonroot by blast
        show ?thesis
          unfolding run using c d by (rule rerun_after_reset)
      qed
    qed
  qed
qed

text \<open>
  The sample project is well formed; its first run succeeds and its second run changes
  nothing.
\<close>

theorem migrate_twice_witness:
  "wf_fs sample_tree
   \<and> fst (migrate_assets no_faults [''proj''] [''proj'', ''Sources'', ''Assets'']
        [''proj'', ''Sources'', ''Assets.xcassets''] sample_tree) = Some True
   \<and> snd (migrate_assets no_faults [''proj''] [''proj'', ''Sources'', ''Assets'']
        [''proj'', ''Sources'', ''Assets.xcassets'']
        (snd (migrate_assets no_faults [''proj''] [''proj'', ''Sources'', ''Assets'']
           [''proj'', ''Sources'', ''Assets.xcassets''] sample_tree)))
     = snd (migrate_assets no_faults [''proj''] [''proj'', ''Sources'', ''Assets'']
        [''proj'', ''Sources'', ''Assets.xcassets''] sample_tree)"
proof -
  have h: "wf_fs sample_tree" by code_simp
  have t: "fst (migrate_assets no_faults [''proj''] [''proj'', ''Sources'', ''Assets'']
        [''proj'', ''Sources'', ''Assets.xcassets''] sample_tree) = Some True"
    by code_simp
  show ?thesis
    using migrate_twice [OF h, of no_faults "[''proj'']" "[''proj'', ''Sources'', ''Assets'']"
        "[''proj'', ''Sources'', ''Assets.xcassets'']"] h t
    by simp
qed

subsection \<open>The destination during a run\<close>

lemma catalog_inv_is_dir: "catalog_inv d fs \<Longrightarrow> is_dir fs d"
  by (simp add: catalog_inv_def)

lemma catalog_inv_imageset:
  assumes "catalog_inv d fs"
  shows "exists fs (d @ [b @ ''.imageset'']) = is_dir fs (d @ [b @ ''.imageset''])"
proof -
  have "fmlookup fs (d @ [b @ ''.imageset'']) = None
      \<or> fmlookup fs (d @ [b @ ''.imageset'']) = Some Dir"
    using assms by (simp add: catalog_inv_def)
  then show ?thesis by (auto simp: exists_def is_dir_def node_at_def)
qed

lemma catalog_inv_no_dir: "catalog_inv d fs \<Longrightarrow> \<not> is_dir fs (d @ [i, n])"
  by (simp add: catalog_inv_def is_dir_def node_at_def)

lemma catalog_inv_file:
  "catalog_inv d fs \<Longrightarrow> catalog_inv d (fmupd (d @ [i, n]) (File c) fs)"
  by (auto simp: catalog_inv_def is_dir_def node_at_def)

lemma catalog_inv_dir:
  "catalog_inv d fs \<Longrightarrow> catalog_inv d (fmupd (d @ [b @ ''.imageset'']) Dir fs)"
  by (auto simp: catalog_inv_def is_dir_def node_at_def)

lemma makedirs_imageset:
  assumes "catalog_inv d fs"
  shows "makedirs f (d @ [b @ ''.imageset'']) fs =
     (if is_dir fs (d @ [b @ ''.imageset'']) then (True, fs)
      else if mkdir_fails f (d @ [b @ ''.imageset'']) then (False, fs)
      else (True, fmupd (d @ [b @ ''.imageset'']) Dir fs))"
proof -
  have "makedirs f (d @ [b @ ''.imageset'']) fs =
     (case mkdir f (d @ [b @ ''.imageset'']) fs of
        (True, fs2) \<Rightarrow> (True, fs2)
      | (False, fs2) \<Rightarrow> (is_dir fs2 (d @ [b @ ''.imageset'']), fs2))"
    using catalog_inv_is_dir [OF assms] by (intro makedirs_in_dir) simp_all
  then show ?thesis
    using catalog_inv_is_dir [OF assms] catalog_inv_imageset [OF assms, of b]
    by (simp add: mkdir_def)
qed

lemma copy2_imageset:
  assumes "catalog_inv d fs" "is_dir fs (d @ [i])"
  shows "copy2 f src (d @ [i, n]) fs =
     (case node_at fs src of
        Some (File c) \<Rightarrow>
          if src = d @ [i, n] \<or> copy_fails f src (d @ [i, n]) then (False, fs)
          else (True, fmupd (d @ [i, n]) (File c) fs)
      | _ \<Rightarrow> (False, fs))"
  using catalog_inv_no_dir [OF assms(1), of i n] assms(2)
  by (simp add: copy2_def butlast_append split: option.split node.split)

lemma write_file_imageset:
  assumes "catalog_inv d fs" "is_dir fs (d @ [i])"
  shows "write_file f (d @ [i, n]) c fs =
     (if write_fails f (d @ [i, n]) then (False, fs)
      else (True, fmupd (d @ [i, n]) (File c) fs))"
  using catalog_inv_no_dir [OF assms(1), of i n] assms(2)
  by (simp add: write_file_def butlast_append)

lemma after_variant_imageset:
  assumes "catalog_inv d fs" "is_dir fs (d @ [i])" "\<not> prefix d s"
  shows "after_variant f s (d @ [i]) vn fs =
     (case fmlookup fs (s @ [vn]) of
        Some (File c) \<Rightarrow>
          if copy_fails f (s @ [vn]) (d @ [i, vn]) then fs
          else fmupd (d @ [i, vn]) (File c) fs
      | _ \<Rightarrow> fs)"
    and "copied f s (d @ [i]) vn fs \<longleftrightarrow>
      (\<exists>c. fmlookup fs (s @ [vn]) = Some (File c)) \<and> \<not> copy_fails f (s @ [vn]) (d @ [i, vn])"
proof -
  have ne: "s @ [vn] \<noteq> d @ [i, vn]"
  proof
    assume "s @ [vn] = d @ [i, vn]"
    then have "s = d @ [i]" by simp
    with assms(3) show False by simp
  qed
  show "after_variant f s (d @ [i]) vn fs =
     (case fmlookup fs (s @ [vn]) of
        Some (File c) \<Rightarrow>
          if copy_fails f (s @ [vn]) (d @ [i, vn]) then fs
          else fmupd (d @ [i, vn]) (File c) fs
      | _ \<Rightarrow> fs)"
    using ne
    by (simp add: after_variant_def copy2_imageset [OF assms(1,2)] exists_def node_at_def
        split: option.split node.split)
  show "copied f s (d @ [i]) vn fs \<longleftrightarrow>
      (\<exists>c. fmlookup fs (s @ [vn]) = Some (File c)) \<and> \<not> copy_fails f (s @ [vn]) (d @ [i, vn])"
    using ne
    by (simp add: copied_def copy2_imageset [OF assms(1,2)] exists_def node_at_def
        split: option.split node.split)
qed

lemma after_variant_keeps:
  assumes "catalog_inv d fs" "is_dir fs (d @ [i])" "\<not> prefix d s"
  shows "catalog_inv d (after_variant f s (d @ [i]) vn fs)"
    and "is_dir (after_variant f s (d @ [i]) vn fs) (d @ [i])"
    and "q \<noteq> d @ [i, vn] \<Longrightarrow> fmlookup (after_variant f s (d @ [i]) vn fs) q = fmlookup fs q"
  using assms(1,2) catalog_inv_file [OF assms(1)]
  by (auto simp: after_variant_imageset(1) [OF assms] is_dir_def node_at_def
      split: option.split node.split)

lemma build_images_stages:
  "build_images f s i b e scales [] fs = (Some (entries_of f s i b e fs), variants_done f s i b e fs)"
  unfolding scales_def entries_of_def variants_done_def by (rule build_images_scales)

lemma imageset_ready_keeps:
  assumes "catalog_inv d fs"
  shows "catalog_inv d (imageset_ready d b fs)"
    and "is_dir (imageset_ready d b fs) (d @ [b @ ''.imageset''])"
    and "q \<noteq> d @ [b @ ''.imageset''] \<Longrightarrow> fmlookup (imageset_ready d b fs) q = fmlookup fs q"
  using assms catalog_inv_dir [OF assms, of b]
  by (auto simp: imageset_ready_def is_dir_def node_at_def)

lemma variants_done_keeps:
  assumes "catalog_inv d fs" "is_dir fs (d @ [i])" "\<not> prefix d s"
  shows "catalog_inv d (variants_done f s (d @ [i]) b e fs)"
    and "is_dir (variants_done f s (d @ [i]) b e fs) (d @ [i])"
proof -
  let ?a = "after_variant f s (d @ [i]) (b @ e) fs"
  let ?b = "after_variant f s (d @ [i]) (b @ ''@2x'' @ e) ?a"
  note a = after_variant_keeps(1,2) [OF assms, of f "b @ e"]
  note b = after_variant_keeps(1,2) [OF a assms(3), of f "b @ ''@2x'' @ e"]
  note c = after_variant_keeps(1,2) [OF b assms(3), of f "b @ ''@3x'' @ e"]
  show "catalog_inv d (variants_done f s (d @ [i]) b e fs)"
    and "is_dir (variants_done f s (d @ [i]) b e fs) (d @ [i])"
    using c by (simp_all add: variants_done_def)
qed

lemma create_imageset_stages:
  assumes "catalog_inv d fs" "\<not> prefix d s"
  shows "create_imageset f s d b e scales fs =
     (if \<not> is_dir fs (d @ [b @ ''.imageset'']) \<and> mkdir_fails f (d @ [b @ ''.imageset''])
      then (Some False, fs)
      else if write_fails f (d @ [b @ ''.imageset'', ''Contents.json''])
      then (Some False, variants_done f s (d @ [b @ ''.imageset'']) b e (imageset_ready d b fs))
      else (Some True,
            fmupd (d @ [b @ ''.imageset'', ''Contents.json''])
              (File (JsonDoc (JObj
                 [(''images'', JArr (entries_of f s (d @ [b @ ''.imageset'']) b e
                                       (imageset_ready d b fs))),
                  (''info'', info_block)])))
              (variants_done f s (d @ [b @ ''.imageset'']) b e (imageset_ready d b fs))))"
proof -
  let ?i = "d @ [b @ ''.imageset'']"
  let ?r = "imageset_ready d b fs"
  note r = imageset_ready_keeps(1,2) [OF assms(1), of b]
  note v = variants_done_keeps [OF r assms(2), of f b e]
  have w: "write_file f (d @ [b @ ''.imageset'', ''Contents.json'']) c
             (variants_done f s ?i b e ?r) =
           (if write_fails f (d @ [b @ ''.imageset'', ''Contents.json''])
            then (False, variants_done f s ?i b e ?r)
            else (True, fmupd (d @ [b @ ''.imageset'', ''Contents.json'']) (File c)
                          (variants_done f s ?i b e ?r)))" for c
    using write_file_imageset [OF v] .
  show ?thesis
  proof (cases "\<not> is_dir fs ?i \<and> mkdir_fails f ?i")
    case True
    then show ?thesis
      by (simp add: create_imageset_def makedirs_imageset [OF assms(1)])
  next
    case False
    then have m: "makedirs f ?i fs = (True, ?r)"
      by (auto simp: makedirs_imageset [OF assms(1)] imageset_ready_def)
    have c: "(\<not> is_dir fs ?i \<and> mkdir_fails f ?i) = False" using False by simp
    show ?thesis
      unfolding c by (simp add: create_imageset_def m build_images_stages w Let_def)
  qed
qed

lemma create_imageset_keeps:
  assumes "catalog_inv d fs" "\<not> prefix d s"
  shows "catalog_inv d (snd (create_imageset f s d b e scales fs))"
    and "fst (create_imageset f s d b e scales fs) \<noteq> None"
    and "only_copies_fail f \<Longrightarrow> fst (create_imageset f s d b e scales fs) = Some True"
proof -
  note r = imageset_ready_keeps(1,2) [OF assms(1), of b]
  note v = variants_done_keeps [OF r assms(2), of f b e]
  show "catalog_inv d (snd (create_imageset f s d b e scales fs))"
    using assms(1) v(1) catalog_inv_file [OF v(1)]
    by (auto simp: create_imageset_stages [OF assms])
  show "fst (create_imageset f s d b e scales fs) \<noteq> None"
    by (auto simp: create_imageset_stages [OF assms])
  show "only_copies_fail f \<Longrightarrow> fst (create_imageset f s d b e scales fs) = Some True"
    by (auto simp: create_imageset_stages [OF assms] only_copies_fail_def)
qed

lemma process_groups_keeps:
  assumes "catalog_inv d fs" "\<not> prefix d s"
  shows "catalog_inv d (snd (process_groups f s d gs a fs))
       \<and> fst (process_groups f s d gs a fs) \<noteq> None
       \<and> (only_copies_fail f \<longrightarrow> fst (process_groups f s d gs a fs) = Some a)"
  using assms(1)
proof (induction gs arbitrary: a fs)
  case Nil
  then show ?case by simp
next
  case (Cons g gs)
  obtain b e where g: "g = (b, e)" by (cases g)
  obtain r1 fs1 where c: "create_imageset f s d b e scales fs = (r1, fs1)"
    by (cases "create_imageset f s d b e scales fs") auto
  note k = create_imageset_keeps [OF Cons.prems assms(2), of f b e]
  obtain ok where r1: "r1 = Some ok" using k(2) c by (cases r1) auto
  have i1: "catalog_inv d fs1" using k(1) c by simp
  have t: "only_copies_fail f \<Longrightarrow> ok" using k(3) c r1 by simp
  have step: "process_groups f s d (g # gs) a fs
      = process_groups f s d gs (if \<not> ok then False else a) fs1"
    using g c r1 by simp
  show ?case
    unfolding step using Cons.IH [OF i1, of "if \<not> ok then False else a"] t by auto
qed

lemma reset_state:
  assumes "wf_fs fs" "safe_rmtree f d e fs = (True, fsR)"
  shows "d \<noteq> []"
    and "prefix d q \<Longrightarrow> fmlookup fsR q = None"
    and "\<not> prefix d q \<Longrightarrow> fmlookup fsR q = fmlookup fs q"
proof -
  have cs: "(\<not> exists fs d \<and> fsR = fs)
      \<or> (guard_passes d e \<and> fsR = fmfilter (\<lambda>q. \<not> prefix d q) fs)"
    using assms(2) by (auto simp: safe_rmtree_guard rmtree_def split: if_splits)
  show "d \<noteq> []" using cs guard_passes_nonroot by auto
  show "prefix d q \<Longrightarrow> fmlookup fsR q = None"
    using cs absent_clear [OF assms(1), of d q] by auto
  show "\<not> prefix d q \<Longrightarrow> fmlookup fsR q = fmlookup fs q" using cs by auto
qed

lemma imageset_name_not_manifest: "b @ ''.imageset'' \<noteq> ''Contents.json''"
proof
  assume "b @ ''.imageset'' = ''Contents.json''"
  then have "last (b @ ''.imageset'') = last ''Contents.json''" by simp
  then show False by simp
qed

lemma fresh_catalog:
  assumes clear: "\<And>q. prefix d q \<Longrightarrow> fmlookup fsR q = None" and d: "d \<noteq> []"
    and mk: "makedirs f d fsR = (True, fsA)"
    and w: "write_file f (d @ [''Contents.json'']) root_manifest fsA = (ok, fsB)"
  shows "catalog_inv d fsB" and "\<not> write_fails f (d @ [''Contents.json'']) \<Longrightarrow> ok"
proof -
  have dA: "is_dir fsA d" using mk by (rule makedirs_ok_is_dir)
  have below: "fmlookup fsA q = None" if "strict_prefix d q" for q
  proof -
    have "\<not> prefix q d" using that by (auto simp: strict_prefix_def)
    then have "fmlookup fsA q = fmlookup fsR q" using makedirs_changes [OF mk, of q] by blast
    then show ?thesis using clear [of q] that by (simp add: strict_prefix_def)
  qed
  have n: "fmlookup fsA (d @ [''Contents.json'']) = None"
    by (rule below) (simp add: strict_prefix_def)
  then show "\<not> write_fails f (d @ [''Contents.json'']) \<Longrightarrow> ok"
    using w dA by (auto simp: write_file_def is_dir_def node_at_def split: if_splits)
  have lk: "fmlookup fsB q = (if ok \<and> q = d @ [''Contents.json''] then Some (File root_manifest)
      else fmlookup fsA q)" for q
    using write_file_lookup [OF w] .
  have "fmlookup fsB (d @ [b @ ''.imageset'']) = None" for b
    using below [of "d @ [b @ ''.imageset'']"] imageset_name_not_manifest [of b]
    by (simp add: lk strict_prefix_def)
  moreover have "fmlookup fsB (d @ [i, n]) = None" for i n
    using below [of "d @ [i, n]"] by (simp add: lk strict_prefix_def)
  moreover have "is_dir fsB d"
    using dA dirs_kept_write_file [OF w] by (simp add: dirs_kept_def)
  ultimately show "catalog_inv d fsB" by (simp add: catalog_inv_def)
qed

lemma fresh_catalog_source:
  assumes mk: "makedirs f d fsR = (True, fsA)"
    and w: "write_file f (d @ [''Contents.json'']) root_manifest fsA = (ok, fsB)"
    and q: "fmlookup fsR q \<noteq> None" "q \<noteq> d @ [''Contents.json'']"
  shows "fmlookup fsB q = fmlookup fsR q"
proof -
  have "fmlookup fsA q = fmlookup fsR q" using makedirs_changes [OF mk, of q] q(1) by blast
  then show ?thesis using write_file_lookup [OF w, of q] q(2) by simp
qed

lemma listdir_mem:
  assumes "listdir f s fs = Some listing"
  shows "n |\<in>| listing \<longleftrightarrow> fmlookup fs (s @ [n]) \<noteq> None"
proof -
  have l: "listing = last |`| ffilter (\<lambda>q. q \<noteq> [] \<and> butlast q = s) (fmdom fs)"
    using assms by (auto simp: listdir_def split: if_splits)
  show ?thesis
  proof
    assume "n |\<in>| listing"
    then obtain q where q: "q |\<in>| fmdom fs" "q \<noteq> []" "butlast q = s" "n = last q"
      unfolding l by auto
    then have "q = s @ [n]" using append_butlast_last_id [of q] by simp
    then show "fmlookup fs (s @ [n]) \<noteq> None" using q(1) by (auto simp: fmlookup_dom_iff)
  next
    assume "fmlookup fs (s @ [n]) \<noteq> None"
    then have "s @ [n] |\<in>| fmdom fs" by (auto simp: fmlookup_dom_iff)
    then have "s @ [n] |\<in>| ffilter (\<lambda>q. q \<noteq> [] \<and> butlast q = s) (fmdom fs)" by simp
    then have "last (s @ [n]) |\<in>| listing" unfolding l by (rule fimageI)
    then show "n |\<in>| listing" by simp
  qed
qed

lemma lower_char_ge: "c \<le> lower_char c"
proof (cases "map_of (zip ''ABCDEFGHIJKLMNOPQRSTUVWXYZ'' ''abcdefghijklmnopqrstuvwxyz'') c")
  case None
  then show ?thesis by (simp add: lower_char_def)
next
  case (Some d)
  then have "(c, d) \<in> set (zip ''ABCDEFGHIJKLMNOPQRSTUVWXYZ'' ''abcdefghijklmnopqrstuvwxyz'')"
    by (rule map_of_SomeD)
  then have "c \<le> d" by auto
  then show ?thesis using Some by (simp add: lower_char_def)
qed

lemma lower_ge: "s \<le> lower s"
  unfolding lower_def
proof (induction s)
  case Nil
  then show ?case by simp
next
  case (Cons c s)
  then show ?case using lower_char_ge [of c] by (auto simp: order_le_less)
qed

lemma image_extension_le_png:
  assumes "lower e \<in> image_extensions"
  shows "e \<le> ''.png''"
proof -
  have "lower e \<le> ''.png''" using assms by (auto simp: image_extensions_def)
  with lower_ge [of e] show ?thesis by (rule order_trans)
qed

lemma sorted_groups_props:
  "sorted_wrt (<) (sorted_groups listing)"
  "set (sorted_groups listing) = fset (base_names listing)"
  by (simp_all add: sorted_groups_def sorted_list_of_fset.rep_eq strict_sorted_iff)

lemma base_names_iff:
  "g |\<in>| base_names listing \<longleftrightarrow> (\<exists>n. n |\<in>| listing \<and> is_image_name n \<and> g = group_of n)"
  by (auto simp: base_names_def)

lemma same_length_prefixes:
  assumes "prefix x q" "prefix y q" "length x = length y"
  shows "x = y"
proof -
  obtain u where u: "q = x @ u" using assms(1) by (auto simp: prefix_def)
  obtain v where v: "q = y @ v" using assms(2) by (auto simp: prefix_def)
  from u v have "x @ u = y @ v" by simp
  with assms(3) show ?thesis by (simp add: append_eq_append_conv)
qed

lemma below_imageset_strict: "prefix (d @ [i]) q \<Longrightarrow> strict_prefix d q"
  by (auto simp: prefix_def strict_prefix_def)

lemma process_groups_step:
  assumes "catalog_inv d fs" "\<not> prefix d s"
  obtains ok where
    "create_imageset f s d b e scales fs = (Some ok, snd (create_imageset f s d b e scales fs))"
    "process_groups f s d ((b, e) # gs) a fs =
       process_groups f s d gs (if \<not> ok then False else a)
         (snd (create_imageset f s d b e scales fs))"
proof -
  obtain r1 fs1 where c: "create_imageset f s d b e scales fs = (r1, fs1)"
    by (cases "create_imageset f s d b e scales fs") auto
  obtain ok where r1: "r1 = Some ok"
    using create_imageset_keeps(2) [OF assms, of f b e] c by (cases r1) auto
  show ?thesis
    using that [of ok] c r1 by simp
qed

lemma last_of_base:
  assumes "catalog_inv d fs" "\<not> prefix d s"
    and "sorted_wrt (<) gs" "(b, e) \<in> set gs" "\<forall>e'. (b, e') \<in> set gs \<longrightarrow> e' \<le> e"
  shows "\<exists>fs0. catalog_inv d fs0
       \<and> (\<forall>q. \<not> strict_prefix d q \<longrightarrow> fmlookup fs0 q = fmlookup fs q)
       \<and> (\<forall>q. prefix (d @ [b @ ''.imageset'']) q \<longrightarrow>
            fmlookup (snd (process_groups f s d gs a fs)) q
            = fmlookup (snd (create_imageset f s d b e scales fs0)) q)"
  using assms(1,3,4,5)
proof (induction gs arbitrary: a fs)
  case Nil
  then show ?case by simp
next
  case (Cons g gs)
  obtain b' e' where g: "g = (b', e')" by (cases g)
  let ?fs1 = "snd (create_imageset f s d b' e' scales fs)"
  obtain ok where c: "create_imageset f s d b' e' scales fs = (Some ok, ?fs1)"
    and step: "process_groups f s d ((b', e') # gs) a fs =
       process_groups f s d gs (if \<not> ok then False else a) ?fs1"
    by (rule process_groups_step [OF Cons.prems(1) assms(2)])
  have i1: "catalog_inv d ?fs1"
    by (rule create_imageset_keeps(1) [OF Cons.prems(1) assms(2)])
  show ?case
  proof (cases "(b', e') = (b, e)")
    case True
    have later: "\<not> prefix (d @ [b'' @ ''.imageset'']) q"
      if "(b'', e'') \<in> set gs" "prefix (d @ [b @ ''.imageset'']) q" for b'' e'' q
    proof
      assume "prefix (d @ [b'' @ ''.imageset'']) q"
      then have "d @ [b'' @ ''.imageset''] = d @ [b @ ''.imageset'']"
        using that(2) by (rule same_length_prefixes) simp
      then have "b'' = b" by simp
      moreover have "(b, e) < (b'', e'')" using Cons.prems(2) that(1) g True by auto
      moreover have "e'' \<le> e" using Cons.prems(4) that(1) \<open>b'' = b\<close> by auto
      ultimately show False by auto
    qed
    have "fmlookup (snd (process_groups f s d gs (if \<not> ok then False else a) ?fs1)) q
        = fmlookup ?fs1 q" if "prefix (d @ [b @ ''.imageset'']) q" for q
    proof (rule process_groups_frame [OF catalog_inv_is_dir [OF i1]])
      show "process_groups f s d gs (if \<not> ok then False else a) ?fs1
          = (fst (process_groups f s d gs (if \<not> ok then False else a) ?fs1),
             snd (process_groups f s d gs (if \<not> ok then False else a) ?fs1))"
        by simp
      show "\<forall>(b'', e'') \<in> set gs. \<not> prefix (d @ [b'' @ ''.imageset'']) q"
        using later that by auto
    qed
    then show ?thesis
      using Cons.prems(1) True g step by (intro exI [of _ fs]) auto
  next
    case False
    then have mem: "(b, e) \<in> set gs" using Cons.prems(3) g by auto
    have srt: "sorted_wrt (<) gs" using Cons.prems(2) by simp
    have mx: "\<forall>e'. (b, e') \<in> set gs \<longrightarrow> e' \<le> e" using Cons.prems(4) by simp
    from Cons.IH [OF i1 srt mem mx, of "if \<not> ok then False else a"]
    obtain fs0 where fs0: "catalog_inv d fs0"
      "\<forall>q. \<not> strict_prefix d q \<longrightarrow> fmlookup fs0 q = fmlookup ?fs1 q"
      "\<forall>q. prefix (d @ [b @ ''.imageset'']) q \<longrightarrow>
         fmlookup (snd (process_groups f s d gs (if \<not> ok then False else a) ?fs1)) q
         = fmlookup (snd (create_imageset f s d b e scales fs0)) q"
      by blast
    have "fmlookup ?fs1 q = fmlookup fs q" if "\<not> strict_prefix d q" for q
      using same_outside_create_imageset [OF catalog_inv_is_dir [OF Cons.prems(1)] c]
        below_imageset_strict [of d _ q] that
      by (auto simp: same_outside_def)
    then show ?thesis
      using fs0 g step by (intro exI [of _ fs0]) auto
  qed
qed

lemma reset_dir: "safe_rmtree f d e fs = (True, fsR) \<Longrightarrow> exists fs d \<Longrightarrow> is_dir fs d"
  by (auto simp: safe_rmtree_guard rmtree_def split: if_splits)

lemma run_reaches_groups:
  assumes wf: "wf_fs fs" and src: "is_dir fs s" and out: "\<not> prefix d s"
    and rm: "safe_rmtree f d (root @ [''Sources'']) fs = (True, fsR)"
    and mk: "makedirs f d fsR = (True, fsA)"
    and nf: "\<not> write_fails f (d @ [''Contents.json''])" "\<not> listdir_fails f s"
  shows "\<exists>fsB listing. catalog_inv d fsB \<and> listdir f s fsB = Some listing
       \<and> migrate_assets f root s d fs = process_groups f s d (sorted_groups listing) True fsB
       \<and> (\<forall>q. fmlookup fs q \<noteq> None \<and> \<not> prefix d q \<longrightarrow> fmlookup fsB q = fmlookup fs q)"
proof -
  note rs = reset_state [OF wf rm]
  obtain ok fsB where w: "write_file f (d @ [''Contents.json'']) root_manifest fsA = (ok, fsB)"
    by (cases "write_file f (d @ [''Contents.json'']) root_manifest fsA") auto
  have inv: "catalog_inv d fsB" and ok: "ok"
    using fresh_catalog [OF rs(2) rs(1) mk w] nf(1) by blast+
  have keep: "fmlookup fsB q = fmlookup fs q" if "fmlookup fs q \<noteq> None" "\<not> prefix d q" for q
  proof -
    have a: "fmlookup fsR q = fmlookup fs q" using rs(3) that(2) by simp
    have "q \<noteq> d @ [''Contents.json'']" using that(2) by auto
    then show ?thesis using fresh_catalog_source [OF mk w, of q] a that(1) by simp
  qed
  have sB: "is_dir fsB s"
  proof (cases "s = []")
    case True
    then show ?thesis by simp
  next
    case False
    then have "fmlookup fs s = Some Dir" using src by (simp add: is_dir_def node_at_def)
    then have "fmlookup fsB s = Some Dir" using keep [of s] out by simp
    then show ?thesis using False by (simp add: is_dir_def node_at_def)
  qed
  obtain listing where l: "listdir f s fsB = Some listing"
    using sB nf(2) by (simp add: listdir_def)
  have "migrate_assets f root s d fs = process_groups f s d (sorted_groups listing) True fsB"
    using src rm mk w ok l by (simp add: migrate_assets_eq populate_def)
  then show ?thesis using inv l keep by blast
qed

subsection \<open>One image in three scales\<close>

lemma rfind_from_append:
  "rfind_from c (xs @ ys) i found = rfind_from c ys (i + int (length xs)) (rfind_from c xs i found)"
  by (induction xs arbitrary: i found) (simp_all add: add.assoc)

lemma rfind_png: "rfind (y @ ''.png'') (CHR ''.'') = int (length y)"
  by (simp add: rfind_def rfind_from_append)

lemma suffix_of_png: "y \<noteq> [] \<Longrightarrow> suffix_of (y @ ''.png'') = ''.png''"
  by (simp add: suffix_of_def rfind_png)

lemma stem_png: "y \<noteq> [] \<Longrightarrow> stem (y @ ''.png'') = y"
  by (simp add: stem_def rfind_png)

lemma is_image_name_png: "y \<noteq> [] \<Longrightarrow> is_image_name (y @ ''.png'')"
  by (simp add: is_image_name_def suffix_of_png lower_def lower_char_def image_extensions_def)

lemma group_of_png:
  "y \<noteq> [] \<Longrightarrow> group_of (y @ ''.png'') = (strip_scale_suffix [''@2x'', ''@3x''] y, ''.png'')"
  by (simp add: group_of_def suffix_of_png stem_png)

lemma strip_2x: "strip_scale_suffix [''@2x'', ''@3x''] (x @ ''@2x'') = x"
  by (simp add: endswith_def)

lemma strip_3x: "strip_scale_suffix [''@2x'', ''@3x''] (x @ ''@3x'') = x"
  by (simp add: endswith_def)

lemma group_of_2x: "group_of (x @ ''@2x.png'') = (x, ''.png'')"
  using group_of_png [of "x @ ''@2x''"] unfolding strip_2x by simp

lemma group_of_3x: "group_of (x @ ''@3x.png'') = (x, ''.png'')"
  using group_of_png [of "x @ ''@3x''"] unfolding strip_3x by simp

lemma group_of_1x:
  "x \<noteq> [] \<Longrightarrow> \<not> endswith x ''@2x'' \<Longrightarrow> \<not> endswith x ''@3x'' \<Longrightarrow>
   group_of (x @ ''.png'') = (x, ''.png'')"
  by (simp add: group_of_png)

lemma is_image_name_2x: "is_image_name (x @ ''@2x.png'')"
  using is_image_name_png [of "x @ ''@2x''"] by simp

lemma outside_not_below:
  assumes "\<not> prefix d s"
  shows "s @ [v] \<noteq> d @ [i, n]" and "s @ [v] \<noteq> d @ [i]"
proof -
  show "s @ [v] \<noteq> d @ [i, n]"
  proof
    assume "s @ [v] = d @ [i, n]"
    then have "s @ [v] = (d @ [i]) @ [n]" by simp
    then have "s = d @ [i]" by (simp del: append_assoc)
    with assms show False by simp
  qed
  show "s @ [v] \<noteq> d @ [i]" using assms by auto
qed

lemma create_imageset_complete:
  assumes inv: "catalog_inv d fs" and out: "\<not> prefix d s" and oc: "only_copies_fail f"
    and f1: "fmlookup fs (s @ [x @ ''.png'']) = Some (File c1)"
    and f2: "fmlookup fs (s @ [x @ ''@2x.png'']) = Some (File c2)"
    and f3: "fmlookup fs (s @ [x @ ''@3x.png'']) = Some (File c3)"
    and n1: "\<not> copy_fails f (s @ [x @ ''.png'']) (d @ [x @ ''.imageset'', x @ ''.png''])"
    and n2: "\<not> copy_fails f (s @ [x @ ''@2x.png'']) (d @ [x @ ''.imageset'', x @ ''@2x.png''])"
    and n3: "\<not> copy_fails f (s @ [x @ ''@3x.png'']) (d @ [x @ ''.imageset'', x @ ''@3x.png''])"
  shows "fmlookup (snd (create_imageset f s d x ''.png'' scales fs))
           (d @ [x @ ''.imageset'', ''Contents.json''])
         = Some (File (JsonDoc (JObj
             [(''images'', JArr
                [manifest_entry ''1x'' (Some (x @ ''.png'')),
                 manifest_entry ''2x'' (Some (x @ ''@2x.png'')),
                 manifest_entry ''3x'' (Some (x @ ''@3x.png''))]),
              (''info'', info_block)])))"
    and "fmlookup (snd (create_imageset f s d x ''.png'' scales fs))
           (d @ [x @ ''.imageset'', x @ ''.png'']) = Some (File c1)"
    and "fmlookup (snd (create_imageset f s d x ''.png'' scales fs))
           (d @ [x @ ''.imageset'', x @ ''@2x.png'']) = Some (File c2)"
    and "fmlookup (snd (create_imageset f s d x ''.png'' scales fs))
           (d @ [x @ ''.imageset'', x @ ''@3x.png'']) = Some (File c3)"
    and "fmlookup (snd (create_imageset f s d x ''.png'' scales fs))
           (d @ [x @ ''.imageset'']) = Some Dir"
proof -
  let ?i = "d @ [x @ ''.imageset'']"
  let ?r = "imageset_ready d x fs"
  note r = imageset_ready_keeps [OF inv, where b = x]
  have r1: "fmlookup ?r (s @ [x @ ''.png'']) = Some (File c1)"
    and r2: "fmlookup ?r (s @ [x @ ''@2x.png'']) = Some (File c2)"
    and r3: "fmlookup ?r (s @ [x @ ''@3x.png'']) = Some (File c3)"
    using r(3) outside_not_below(2) [OF out] f1 f2 f3 by simp_all
  define a1 where "a1 = after_variant f s ?i (x @ ''.png'') ?r"
  have a1: "a1 = fmupd (d @ [x @ ''.imageset'', x @ ''.png'']) (File c1) ?r"
    and k1: "copied f s ?i (x @ ''.png'') ?r"
    unfolding a1_def
    using after_variant_imageset [OF r(1,2) out, where f = f and vn = "x @ ''.png''"] r1 n1
    by simp_all
  have i1: "catalog_inv d a1" "is_dir a1 ?i"
    unfolding a1_def
    by (rule after_variant_keeps(1,2) [OF r(1,2) out])+
  define a2 where "a2 = after_variant f s ?i (x @ ''@2x.png'') a1"
  have s2: "fmlookup a1 (s @ [x @ ''@2x.png'']) = Some (File c2)"
    using r2 outside_not_below(1) [OF out] by (simp add: a1)
  have a2: "a2 = fmupd (d @ [x @ ''.imageset'', x @ ''@2x.png'']) (File c2) a1"
    and k2: "copied f s ?i (x @ ''@2x.png'') a1"
    unfolding a2_def
    using after_variant_imageset [OF i1 out, where f = f and vn = "x @ ''@2x.png''"] s2 n2
    by simp_all
  have i2: "catalog_inv d a2" "is_dir a2 ?i"
    unfolding a2_def
    by (rule after_variant_keeps(1,2) [OF i1 out])+
  define a3 where "a3 = after_variant f s ?i (x @ ''@3x.png'') a2"
  have s3: "fmlookup a2 (s @ [x @ ''@3x.png'']) = Some (File c3)"
    using r3 outside_not_below(1) [OF out] by (simp add: a2 a1)
  have a3: "a3 = fmupd (d @ [x @ ''.imageset'', x @ ''@3x.png'']) (File c3) a2"
    and k3: "copied f s ?i (x @ ''@3x.png'') a2"
    unfolding a3_def
    using after_variant_imageset [OF i2 out, where f = f and vn = "x @ ''@3x.png''"] s3 n3
    by simp_all
  have vd: "variants_done f s ?i x ''.png'' ?r = a3"
    by (simp add: variants_done_def a3_def a2_def a1_def)
  have en: "entries_of f s ?i x ''.png'' ?r =
      [manifest_entry ''1x'' (Some (x @ ''.png'')),
       manifest_entry ''2x'' (Some (x @ ''@2x.png'')),
       manifest_entry ''3x'' (Some (x @ ''@3x.png''))]"
    using k1 k2 k3 by (simp add: entries_of_def a2_def a1_def)
  have res: "snd (create_imageset f s d x ''.png'' scales fs) =
      fmupd (d @ [x @ ''.imageset'', ''Contents.json''])
        (File (JsonDoc (JObj
           [(''images'', JArr
              [manifest_entry ''1x'' (Some (x @ ''.png'')),
               manifest_entry ''2x'' (Some (x @ ''@2x.png'')),
               manifest_entry ''3x'' (Some (x @ ''@3x.png''))]),
            (''info'', info_block)]))) a3"
    using oc by (simp add: create_imageset_stages [OF inv out] only_copies_fail_def vd en)
  have nm: "x @ ''.png'' \<noteq> ''Contents.json''" "x @ ''@2x.png'' \<noteq> ''Contents.json''"
    "x @ ''@3x.png'' \<noteq> ''Contents.json''"
  proof -
    have "last (x @ ''.png'') \<noteq> last ''Contents.json''"
      "last (x @ ''@2x.png'') \<noteq> last ''Contents.json''"
      "last (x @ ''@3x.png'') \<noteq> last ''Contents.json''"
      by simp_all
    then show "x @ ''.png'' \<noteq> ''Contents.json''" "x @ ''@2x.png'' \<noteq> ''Contents.json''"
      "x @ ''@3x.png'' \<noteq> ''Contents.json''"
      by metis+
  qed
  show "fmlookup (snd (create_imageset f s d x ''.png'' scales fs))
           (d @ [x @ ''.imageset'', ''Contents.json''])
         = Some (File (JsonDoc (JObj
             [(''images'', JArr
                [manifest_entry ''1x'' (Some (x @ ''.png'')),
                 manifest_entry ''2x'' (Some (x @ ''@2x.png'')),
                 manifest_entry ''3x'' (Some (x @ ''@3x.png''))]),
              (''info'', info_block)])))"
    by (simp add: res)
  show "fmlookup (snd (create_imageset f s d x ''.png'' scales fs))
           (d @ [x @ ''.imageset'', x @ ''.png'']) = Some (File c1)"
    using nm by (simp add: res a3 a2 a1)
  show "fmlookup (snd (create_imageset f s d x ''.png'' scales fs))
           (d @ [x @ ''.imageset'', x @ ''@2x.png'']) = Some (File c2)"
    using nm by (simp add: res a3 a2 a1)
  show "fmlookup (snd (create_imageset f s d x ''.png'' scales fs))
           (d @ [x @ ''.imageset'', x @ ''@3x.png'']) = Some (File c3)"
    using nm by (simp add: res a3 a2 a1)
  show "fmlookup (snd (create_imageset f s d x ''.png'' scales fs))
           (d @ [x @ ''.imageset'']) = Some Dir"
    using r(2) by (simp add: res a3 a2 a1 is_dir_def node_at_def)
qed

lemma file_outside:
  assumes "safe_rmtree f d e fs = (True, fsR)" "\<not> prefix d s"
    and "fmlookup fs (s @ [v]) = Some (File c)"
  shows "\<not> prefix d (s @ [v])"
proof
  assume "prefix d (s @ [v])"
  then have d: "d = s @ [v]" using assms(2) by simp
  then have "exists fs d" using assms(3) by (simp add: exists_def node_at_def)
  then have "is_dir fs d" using assms(1) by (rule reset_dir [rotated])
  then show False using d assms(3) by (simp add: is_dir_def node_at_def)
qed

lemma group_extension_le_png:
  assumes "(b, e) \<in> set (sorted_groups listing)"
  shows "e \<le> ''.png''"
proof -
  have "(b, e) |\<in>| base_names listing" using assms by (simp add: sorted_groups_props(2))
  then obtain n where "is_image_name n" "(b, e) = group_of n"
    by (auto simp: base_names_iff)
  then have "lower e \<in> image_extensions" by (simp add: is_image_name_def group_of_def)
  then show ?thesis by (rule image_extension_le_png)
qed

text \<open>
  Claim C6: the names \<^verbatim>\<open>x@2x.png\<close> and \<^verbatim>\<open>x@3x.png\<close> fall into the group
  \<^verbatim>\<open>(x, .png)\<close>, and so does \<^verbatim>\<open>x.png\<close> unless \<open>x\<close> is empty or itself ends in a scale
  suffix. When the source directory, lying outside the destination, holds the three files,
  the reset of the destination succeeds, nothing but copies can fail and the copies of
  the three files do not, the run succeeds and leaves \<^verbatim>\<open>x.imageset\<close> with a manifest of
  three entries that all carry their file names, and with the three files, each with the
  content of its source.
\<close>

theorem three_scales_one_imageset:
  assumes wf: "wf_fs fs" and oc: "only_copies_fail f"
    and f1: "fmlookup fs (source_dir @ [x @ ''.png'']) = Some (File c1)"
    and f2: "fmlookup fs (source_dir @ [x @ ''@2x.png'']) = Some (File c2)"
    and f3: "fmlookup fs (source_dir @ [x @ ''@3x.png'']) = Some (File c3)"
    and n1: "\<not> copy_fails f (source_dir @ [x @ ''.png''])
               (dest_dir @ [x @ ''.imageset'', x @ ''.png''])"
    and n2: "\<not> copy_fails f (source_dir @ [x @ ''@2x.png''])
               (dest_dir @ [x @ ''.imageset'', x @ ''@2x.png''])"
    and n3: "\<not> copy_fails f (source_dir @ [x @ ''@3x.png''])
               (dest_dir @ [x @ ''.imageset'', x @ ''@3x.png''])"
    and out: "\<not> prefix dest_dir source_dir"
    and rm: "fst (safe_rmtree f dest_dir (project_root @ [''Sources'']) fs)"
    and mk: "fst (makedirs f dest_dir
               (snd (safe_rmtree f dest_dir (project_root @ [''Sources'']) fs)))"
  shows "group_of (x @ ''@2x.png'') = (x, ''.png'')
       \<and> group_of (x @ ''@3x.png'') = (x, ''.png'')
       \<and> (x \<noteq> [] \<and> \<not> endswith x ''@2x'' \<and> \<not> endswith x ''@3x''
            \<longrightarrow> group_of (x @ ''.png'') = (x, ''.png''))
       \<and> fst (migrate_assets f project_root source_dir dest_dir fs) = Some True
       \<and> is_dir (snd (migrate_assets f project_root source_dir dest_dir fs))
            (dest_dir @ [x @ ''.imageset''])
       \<and> node_at (snd (migrate_assets f project_root source_dir dest_dir fs))
            (dest_dir @ [x @ ''.imageset'', ''Contents.json''])
          = Some (File (JsonDoc (JObj
              [(''images'', JArr
                 [manifest_entry ''1x'' (Some (x @ ''.png'')),
                  manifest_entry ''2x'' (Some (x @ ''@2x.png'')),
                  manifest_entry ''3x'' (Some (x @ ''@3x.png''))]),
               (''info'', JObj [(''author'', JStr ''xcode''), (''version'', JInt 1)])])))
       \<and> node_at (snd (migrate_assets f project_root source_dir dest_dir fs))
            (dest_dir @ [x @ ''.imageset'', x @ ''.png'']) = Some (File c1)
       \<and> node_at (snd (migrate_assets f project_root source_dir dest_dir fs))
            (dest_dir @ [x @ ''.imageset'', x @ ''@2x.png'']) = Some (File c2)
       \<and> node_at (snd (migrate_assets f project_root source_dir dest_dir fs))
            (dest_dir @ [x @ ''.imageset'', x @ ''@3x.png'']) = Some (File c3)"
proof -
  let ?e = "project_root @ [''Sources'']"
  let ?run = "migrate_assets f project_root source_dir dest_dir fs"
  obtain fsR where rmE: "safe_rmtree f dest_dir ?e fs = (True, fsR)"
    using rm by (cases "safe_rmtree f dest_dir ?e fs") auto
  obtain fsA where mkE: "makedirs f dest_dir fsR = (True, fsA)"
    using mk rmE by (cases "makedirs f dest_dir fsR") auto
  have src: "is_dir fs source_dir"
    using wf_fs_parent [OF wf, of "source_dir @ [x @ ''.png'']"] f1 by simp
  have nf: "\<not> write_fails f (dest_dir @ [''Contents.json''])" "\<not> listdir_fails f source_dir"
    using oc by (simp_all add: only_copies_fail_def)
  from run_reaches_groups [OF wf src out rmE mkE nf]
  obtain fsB listing where inv: "catalog_inv dest_dir fsB"
    and l: "listdir f source_dir fsB = Some listing"
    and run: "?run = process_groups f source_dir dest_dir (sorted_groups listing) True fsB"
    and keep: "\<And>q. fmlookup fs q \<noteq> None \<Longrightarrow> \<not> prefix dest_dir q \<Longrightarrow>
        fmlookup fsB q = fmlookup fs q"
    by blast
  note o1 = file_outside [OF rmE out f1]
    and o2 = file_outside [OF rmE out f2]
    and o3 = file_outside [OF rmE out f3]
  have "x @ ''@2x.png'' |\<in>| listing"
    using listdir_mem [OF l, of "x @ ''@2x.png''"] keep [OF _ o2] f2 by simp
  then have "(x, ''.png'') |\<in>| base_names listing"
    using is_image_name_2x [of x] group_of_2x [of x] by (auto simp: base_names_iff)
  then have mem: "(x, ''.png'') \<in> set (sorted_groups listing)"
    by (simp add: sorted_groups_props(2))
  have mx: "\<forall>e'. (x, e') \<in> set (sorted_groups listing) \<longrightarrow> e' \<le> ''.png''"
    using group_extension_le_png by blast
  from last_of_base [OF inv out sorted_groups_props(1) mem mx, of f True]
  obtain fs0 where inv0: "catalog_inv dest_dir fs0"
    and same0: "\<And>q. \<not> strict_prefix dest_dir q \<Longrightarrow> fmlookup fs0 q = fmlookup fsB q"
    and fin: "\<And>q. prefix (dest_dir @ [x @ ''.imageset'']) q \<Longrightarrow>
        fmlookup (snd ?run) q
        = fmlookup (snd (create_imageset f source_dir dest_dir x ''.png'' scales fs0)) q"
    unfolding run by blast
  have g1: "fmlookup fs0 (source_dir @ [x @ ''.png'']) = Some (File c1)"
    using same0 [of "source_dir @ [x @ ''.png'']"] keep [OF _ o1] o1 f1
    by (simp add: strict_prefix_def)
  have g2: "fmlookup fs0 (source_dir @ [x @ ''@2x.png'']) = Some (File c2)"
    using same0 [of "source_dir @ [x @ ''@2x.png'']"] keep [OF _ o2] o2 f2
    by (simp add: strict_prefix_def)
  have g3: "fmlookup fs0 (source_dir @ [x @ ''@3x.png'']) = Some (File c3)"
    using same0 [of "source_dir @ [x @ ''@3x.png'']"] keep [OF _ o3] o3 f3
    by (simp add: strict_prefix_def)
  note built = create_imageset_complete [OF inv0 out oc g1 g2 g3 n1 n2 n3]
  have ok: "fst ?run = Some True"
    unfolding run using process_groups_keeps [OF inv out, of f "sorted_groups listing" True] oc
    by simp
  have d: "is_dir (snd ?run) (dest_dir @ [x @ ''.imageset''])"
    using fin [of "dest_dir @ [x @ ''.imageset'']"] built(5)
    by (simp add: is_dir_def node_at_def)
  have m: "node_at (snd ?run) (dest_dir @ [x @ ''.imageset'', ''Contents.json''])
      = Some (File (JsonDoc (JObj
          [(''images'', JArr
             [manifest_entry ''1x'' (Some (x @ ''.png'')),
              manifest_entry ''2x'' (Some (x @ ''@2x.png'')),
              manifest_entry ''3x'' (Some (x @ ''@3x.png''))]),
           (''info'', JObj [(''author'', JStr ''xcode''), (''version'', JInt 1)])])))"
    using fin [of "dest_dir @ [x @ ''.imageset'', ''Contents.json'']"] built(1)
    by (simp add: node_at_def info_block_def)
  have p1: "node_at (snd ?run) (dest_dir @ [x @ ''.imageset'', x @ ''.png'']) = Some (File c1)"
    using fin [of "dest_dir @ [x @ ''.imageset'', x @ ''.png'']"] built(2)
    by (simp add: node_at_def)
  have p2: "node_at (snd ?run) (dest_dir @ [x @ ''.imageset'', x @ ''@2x.png'']) = Some (File c2)"
    using fin [of "dest_dir @ [x @ ''.imageset'', x @ ''@2x.png'']"] built(3)
    by (simp add: node_at_def)
  have p3: "node_at (snd ?run) (dest_dir @ [x @ ''.imageset'', x @ ''@3x.png'']) = Some (File c3)"
    using fin [of "dest_dir @ [x @ ''.imageset'', x @ ''@3x.png'']"] built(4)
    by (simp add: node_at_def)
  show ?thesis
    using group_of_2x [of x] group_of_3x [of x] group_of_1x [of x] ok d m p1 p2 p3
    by blast
qed

text \<open>
  The image \<^verbatim>\<open>logo\<close> of the sample project, migrated without failures to
  \<^verbatim>\<open>/proj/Sources/Assets.xcassets\<close>.
\<close>

theorem three_scales_one_imageset_witness:
  "wf_fs sample_tree \<and> only_copies_fail no_faults
   \<and> group_of ''logo.png'' = (''logo'', ''.png'')
   \<and> group_of ''logo@2x.png'' = (''logo'', ''.png'')
   \<and> group_of ''logo@3x.png'' = (''logo'', ''.png'')
   \<and> fst (migrate_assets no_faults [''proj''] [''proj'', ''Sources'', ''Assets'']
        [''proj'', ''Sources'', ''Assets.xcassets''] sample_tree) = Some True
   \<and> node_at (snd (migrate_assets no_faults [''proj''] [''proj'', ''Sources'', ''Assets'']
        [''proj'', ''Sources'', ''Assets.xcassets''] sample_tree))
        [''proj'', ''Sources'', ''Assets.xcassets'', ''logo.imageset'', ''Contents.json'']
      = Some (File (JsonDoc (JObj
          [(''images'', JArr
             [JObj [(''idiom'', JStr ''universal''), (''scale'', JStr ''1x''),
                    (''filename'', JStr ''logo.png'')],
              JObj [(''idiom'', JStr ''universal''), (''scale'', JStr ''2x''),
                    (''filename'', JStr ''logo@2x.png'')],
              JObj [(''idiom'', JStr ''universal''), (''scale'', JStr ''3x''),
                    (''filename'', JStr ''logo@3x.png'')]]),
           (''info'', JObj [(''author'', JStr ''xcode''), (''version'', JInt 1)])])))
   \<and> node_at (snd (migrate_assets no_faults [''proj''] [''proj'', ''Sources'', ''Assets'']
        [''proj'', ''Sources'', ''Assets.xcassets''] sample_tree))
        [''proj'', ''Sources'', ''Assets.xcassets'', ''logo.imageset'', ''logo.png'']
      = Some (File (Blob ''L1''))
   \<and> node_at (snd (migrate_assets no_faults [''proj''] [''proj'', ''Sources'', ''Assets'']
        [''proj'', ''Sources'', ''Assets.xcassets''] sample_tree))
        [''proj'', ''Sources'', ''Assets.xcassets'', ''logo.imageset'', ''logo@2x.png'']
      = Some (File (Blob ''L2''))
   \<and> node_at (snd (migrate_assets no_faults [''proj''] [''proj'', ''Sources'', ''Assets'']
        [''proj'', ''Sources'', ''Assets.xcassets''] sample_tree))
        [''proj'', ''Sources'', ''Assets.xcassets'', ''logo.imageset'', ''logo@3x.png'']
      = Some (File (Blob ''L3''))"
proof -
  let ?s = "[''proj'', ''Sources'', ''Assets'']"
  let ?d = "[''proj'', ''Sources'', ''Assets.xcassets'']"
  have wf: "wf_fs sample_tree" by code_simp
  have oc: "only_copies_fail no_faults" by (simp add: only_copies_fail_def no_faults_def)
  have f1: "fmlookup sample_tree (?s @ [''logo'' @ ''.png'']) = Some (File (Blob ''L1''))"
    and f2: "fmlookup sample_tree (?s @ [''logo'' @ ''@2x.png'']) = Some (File (Blob ''L2''))"
    and f3: "fmlookup sample_tree (?s @ [''logo'' @ ''@3x.png'']) = Some (File (Blob ''L3''))"
    by (simp_all add: sample_tree_def)
  have n: "\<not> copy_fails no_faults p q" for p q by (simp add: no_faults_def)
  have out: "\<not> prefix ?d ?s" by simp
  have rm: "fst (safe_rmtree no_faults ?d ([''proj''] @ [''Sources'']) sample_tree)"
    by code_simp
  have mk: "fst (makedirs no_faults ?d
      (snd (safe_rmtree no_faults ?d ([''proj''] @ [''Sources'']) sample_tree)))"
    by code_simp
  have e: "\<not> endswith ''logo'' ''@2x''" "\<not> endswith ''logo'' ''@3x''"
    by (simp_all add: endswith_def)
  show ?thesis
    using three_scales_one_imageset [OF wf oc f1 f2 f3 n n n out rm mk] wf oc e
    by (simp add: manifest_entry_def)
qed

subsection \<open>A run in which copies fail\<close>

lemma main_eq:
  assumes "locate (cwd h) (fst (chosen_paths h)) = Some s"
    and "locate (cwd h) (snd (chosen_paths h)) = Some d"
  shows "main h f fs =
     Some (if fst (migrate_assets f (script_dir h) s d fs) = Some True then 0 else 1,
           snd (migrate_assets f (script_dir h) s d fs))"
  using assms by (auto simp: main_def split: prod.split option.split bool.split)

lemma copied_not_failing:
  "copied f s i vn fs \<Longrightarrow> \<not> copy_fails f (s @ [vn]) (i @ [vn])"
  by (auto simp: copied_def copy2_def Let_def split: option.splits node.splits if_splits)

lemma exists_last_of_base:
  fixes gs :: "('a \<times> 'b :: linorder) list"
  assumes "(b, e) \<in> set gs"
  shows "\<exists>em. (b, em) \<in> set gs \<and> (\<forall>e'. (b, e') \<in> set gs \<longrightarrow> e' \<le> em)"
proof -
  let ?S = "{e'. (b, e') \<in> set gs}"
  have "?S \<subseteq> snd ` set gs" by force
  then have fin: "finite ?S" by (rule finite_subset) simp
  have ne: "?S \<noteq> {}" using assms by auto
  have "Max ?S \<in> ?S" using fin ne by (rule Max_in)
  moreover have "\<forall>e'. e' \<in> ?S \<longrightarrow> e' \<le> Max ?S" using fin by auto
  ultimately show ?thesis by blast
qed

lemma final_imageset:
  assumes inv: "catalog_inv d fs" and out: "\<not> prefix d s" and oc: "only_copies_fail f"
    and srt: "sorted_wrt (<) gs" and mem: "(b, e) \<in> set gs"
    and mx: "\<forall>e'. (b, e') \<in> set gs \<longrightarrow> e' \<le> e"
  shows "\<exists>fs0. catalog_inv d fs0
      \<and> fmlookup (snd (process_groups f s d gs a fs)) (d @ [b @ ''.imageset'']) = Some Dir
      \<and> fmlookup (snd (process_groups f s d gs a fs)) (d @ [b @ ''.imageset'', ''Contents.json''])
        = Some (File (JsonDoc (JObj
            [(''images'', JArr (entries_of f s (d @ [b @ ''.imageset'']) b e
                                  (imageset_ready d b fs0))),
             (''info'', info_block)])))"
proof -
  from last_of_base [OF inv out srt mem mx, of f a]
  obtain fs0 where inv0: "catalog_inv d fs0"
    and fin: "\<And>q. prefix (d @ [b @ ''.imageset'']) q \<Longrightarrow>
        fmlookup (snd (process_groups f s d gs a fs)) q
        = fmlookup (snd (create_imageset f s d b e scales fs0)) q"
    by blast
  note r = imageset_ready_keeps(1,2) [OF inv0, where b = b]
  note v = variants_done_keeps [OF r out, where f = f and b = b and e = e]
  have res: "snd (create_imageset f s d b e scales fs0) =
      fmupd (d @ [b @ ''.imageset'', ''Contents.json''])
        (File (JsonDoc (JObj
           [(''images'', JArr (entries_of f s (d @ [b @ ''.imageset'']) b e
                                 (imageset_ready d b fs0))),
            (''info'', info_block)])))
        (variants_done f s (d @ [b @ ''.imageset'']) b e (imageset_ready d b fs0))"
    using oc by (simp add: create_imageset_stages [OF inv0 out] only_copies_fail_def)
  have "fmlookup (snd (create_imageset f s d b e scales fs0)) (d @ [b @ ''.imageset'']) = Some Dir"
    using v(2) by (simp add: res is_dir_def node_at_def)
  moreover have "fmlookup (snd (create_imageset f s d b e scales fs0))
      (d @ [b @ ''.imageset'', ''Contents.json''])
      = Some (File (JsonDoc (JObj
           [(''images'', JArr (entries_of f s (d @ [b @ ''.imageset'']) b e
                                 (imageset_ready d b fs0))),
            (''info'', info_block)])))"
    by (simp add: res)
  ultimately show ?thesis
    using inv0 fin [of "d @ [b @ ''.imageset'']"] fin [of "d @ [b @ ''.imageset'', ''Contents.json'']"]
    by (intro exI [of _ fs0]) simp
qed

lemma entries_of_shape:
  "\<exists>n1 n2 n3. entries_of f s i b e fs
       = [manifest_entry ''1x'' n1, manifest_entry ''2x'' n2, manifest_entry ''3x'' n3]
     \<and> (copy_fails f (s @ [b @ e]) (i @ [b @ e]) \<longrightarrow> n1 = None)
     \<and> (copy_fails f (s @ [b @ ''@2x'' @ e]) (i @ [b @ ''@2x'' @ e]) \<longrightarrow> n2 = None)
     \<and> (copy_fails f (s @ [b @ ''@3x'' @ e]) (i @ [b @ ''@3x'' @ e]) \<longrightarrow> n3 = None)"
  unfolding entries_of_def
  using copied_not_failing [of f s i "b @ e"] copied_not_failing [of f s i "b @ ''@2x'' @ e"]
    copied_not_failing [of f s i "b @ ''@3x'' @ e"]
  by (intro exI conjI) (rule refl, auto)

lemma run_listing:
  assumes wf: "wf_fs fs" and out: "\<not> prefix d s" "\<not> prefix s d"
    and l: "listdir f s fs = Some listing"
    and rm: "safe_rmtree f d (root @ [''Sources'']) fs = (True, fsR)"
    and mk: "makedirs f d fsR = (True, fsA)"
    and nf: "\<not> write_fails f (d @ [''Contents.json''])"
  shows "\<exists>fsB. catalog_inv d fsB
       \<and> migrate_assets f root s d fs = process_groups f s d (sorted_groups listing) True fsB"
proof -
  have src: "is_dir fs s" and nl: "\<not> listdir_fails f s"
    using l by (auto simp: listdir_def split: if_splits)
  note rs = reset_state [OF wf rm]
  obtain ok fsB where w: "write_file f (d @ [''Contents.json'']) root_manifest fsA = (ok, fsB)"
    by (cases "write_file f (d @ [''Contents.json'']) root_manifest fsA") auto
  have inv: "catalog_inv d fsB" and ok: "ok"
    using fresh_catalog [OF rs(2) rs(1) mk w] nf by blast+
  have same: "fmlookup fsB q = fmlookup fs q" if "\<not> prefix d q" "\<not> prefix q d" for q
  proof -
    have a: "fmlookup fsR q = fmlookup fs q" using rs(3) that(1) by simp
    have b: "fmlookup fsA q = fmlookup fsR q" using makedirs_changes [OF mk, of q] that(2) by blast
    have "q \<noteq> d @ [''Contents.json'']" using that(1) by auto
    then show ?thesis using write_file_lookup [OF w, of q] a b by simp
  qed
  have entry: "fmlookup fsB (s @ [n]) = fmlookup fs (s @ [n])" for n
  proof (rule same)
    show "\<not> prefix d (s @ [n])" using out by auto
    show "\<not> prefix (s @ [n]) d" using out(2) by (auto simp: prefix_def)
  qed
  have sB: "is_dir fsB s"
  proof (cases "s = []")
    case True
    then show ?thesis by simp
  next
    case False
    then have "fmlookup fsB s = fmlookup fs s" using same [of s] out by simp
    then show ?thesis using src False by (simp add: is_dir_def node_at_def)
  qed
  obtain listing' where l': "listdir f s fsB = Some listing'"
    using sB nl by (simp add: listdir_def)
  have "listing' = listing"
  proof (rule fset_eqI)
    fix n
    show "n |\<in>| listing' \<longleftrightarrow> n |\<in>| listing"
      using listdir_mem [OF l', of n] listdir_mem [OF l, of n] entry [of n] by simp
  qed
  then have "migrate_assets f root s d fs = process_groups f s d (sorted_groups listing) True fsB"
    using src rm mk w ok l' by (simp add: migrate_assets_eq populate_def)
  then show ?thesis using inv by blast
qed

subsection \<open>Copy failures, and what is grouped\<close>

text \<open>
  Claim C2, amended in the exit status. Take a run whose two paths have a location, on a
  well-formed tree in which the working directory is a directory, in which nothing but
  copies can fail, whose source and destination directories lie apart, and whose
  destination reset succeeds. Then the exit status is 0, whichever copies fail. In the
  tree the run leaves, every group that is the only one of its base name has its imageset
  directory, and in it its manifest: three entries in scale order, and the entry of a
  variant whose copy fails has no file name.
\<close>

theorem copy_failure_tolerated:
  assumes wf: "wf_fs fs" and oc: "only_copies_fail f"
    and wd: "is_dir fs (cwd h)"
    and s: "locate (cwd h) (fst (chosen_paths h)) = Some s"
    and d: "locate (cwd h) (snd (chosen_paths h)) = Some d"
    and out: "\<not> prefix d s" "\<not> prefix s d"
    and l: "listdir f s fs = Some listing"
    and rm: "fst (safe_rmtree f d (script_dir h @ [''Sources'']) fs)"
    and mk: "fst (makedirs f d (snd (safe_rmtree f d (script_dir h @ [''Sources'']) fs)))"
  shows "\<exists>t. main h f fs = Some (0, t)
       \<and> (\<forall>b e. (b, e) \<in> set (sorted_groups listing)
                 \<and> (\<forall>e'. (b, e') \<in> set (sorted_groups listing) \<longrightarrow> e' = e) \<longrightarrow>
            is_dir t (d @ [b @ ''.imageset''])
            \<and> (\<exists>n1 n2 n3.
                 node_at t (d @ [b @ ''.imageset'', ''Contents.json''])
                   = Some (File (JsonDoc (JObj
                       [(''images'', JArr [manifest_entry ''1x'' n1, manifest_entry ''2x'' n2,
                                           manifest_entry ''3x'' n3]),
                        (''info'', JObj [(''author'', JStr ''xcode''), (''version'', JInt 1)])])))
                 \<and> (copy_fails f (s @ [b @ e]) (d @ [b @ ''.imageset'', b @ e]) \<longrightarrow> n1 = None)
                 \<and> (copy_fails f (s @ [b @ ''@2x'' @ e]) (d @ [b @ ''.imageset'', b @ ''@2x'' @ e])
                      \<longrightarrow> n2 = None)
                 \<and> (copy_fails f (s @ [b @ ''@3x'' @ e]) (d @ [b @ ''.imageset'', b @ ''@3x'' @ e])
                      \<longrightarrow> n3 = None)))"
proof -
  let ?e = "script_dir h @ [''Sources'']"
  let ?run = "migrate_assets f (script_dir h) s d fs"
  let ?gs = "sorted_groups listing"
  obtain fsR where rmE: "safe_rmtree f d ?e fs = (True, fsR)"
    using rm by (cases "safe_rmtree f d ?e fs") auto
  obtain fsA where mkE: "makedirs f d fsR = (True, fsA)"
    using mk rmE by (cases "makedirs f d fsR") auto
  have nf: "\<not> write_fails f (d @ [''Contents.json''])"
    using oc by (simp add: only_copies_fail_def)
  from run_listing [OF wf out l rmE mkE nf]
  obtain fsB where inv: "catalog_inv d fsB"
    and run: "?run = process_groups f s d ?gs True fsB"
    by blast
  have ok: "fst ?run = Some True"
    unfolding run using process_groups_keeps [OF inv out(1), of f ?gs True] oc by simp
  have m: "main h f fs = Some (0, snd ?run)"
    using ok by (simp add: main_eq [OF s d])
  have part: "is_dir (snd ?run) (d @ [b @ ''.imageset''])
            \<and> (\<exists>n1 n2 n3.
                 node_at (snd ?run) (d @ [b @ ''.imageset'', ''Contents.json''])
                   = Some (File (JsonDoc (JObj
                       [(''images'', JArr [manifest_entry ''1x'' n1, manifest_entry ''2x'' n2,
                                           manifest_entry ''3x'' n3]),
                        (''info'', JObj [(''author'', JStr ''xcode''), (''version'', JInt 1)])])))
                 \<and> (copy_fails f (s @ [b @ e]) (d @ [b @ ''.imageset'', b @ e]) \<longrightarrow> n1 = None)
                 \<and> (copy_fails f (s @ [b @ ''@2x'' @ e]) (d @ [b @ ''.imageset'', b @ ''@2x'' @ e])
                      \<longrightarrow> n2 = None)
                 \<and> (copy_fails f (s @ [b @ ''@3x'' @ e]) (d @ [b @ ''.imageset'', b @ ''@3x'' @ e])
                      \<longrightarrow> n3 = None))"
    if g: "(b, e) \<in> set ?gs" and only: "\<forall>e'. (b, e') \<in> set ?gs \<longrightarrow> e' = e" for b e
  proof -
    have last: "\<forall>e'. (b, e') \<in> set ?gs \<longrightarrow> e' \<le> e" using only by auto
    from final_imageset [OF inv out(1) oc sorted_groups_props(1) g last, of True]
    obtain fs0 where dir: "fmlookup (snd ?run) (d @ [b @ ''.imageset'']) = Some Dir"
      and man: "fmlookup (snd ?run) (d @ [b @ ''.imageset'', ''Contents.json''])
        = Some (File (JsonDoc (JObj
            [(''images'', JArr (entries_of f s (d @ [b @ ''.imageset'']) b e
                                  (imageset_ready d b fs0))),
             (''info'', info_block)])))"
      unfolding run by blast
    from entries_of_shape [of f s "d @ [b @ ''.imageset'']" b e "imageset_ready d b fs0"]
    obtain n1 n2 n3 where en: "entries_of f s (d @ [b @ ''.imageset'']) b e (imageset_ready d b fs0)
         = [manifest_entry ''1x'' n1, manifest_entry ''2x'' n2, manifest_entry ''3x'' n3]"
      and c1: "copy_fails f (s @ [b @ e]) (d @ [b @ ''.imageset'', b @ e]) \<longrightarrow> n1 = None"
      and c2: "copy_fails f (s @ [b @ ''@2x'' @ e]) (d @ [b @ ''.imageset'', b @ ''@2x'' @ e])
                 \<longrightarrow> n2 = None"
      and c3: "copy_fails f (s @ [b @ ''@3x'' @ e]) (d @ [b @ ''.imageset'', b @ ''@3x'' @ e])
                 \<longrightarrow> n3 = None"
      by auto
    have "is_dir (snd ?run) (d @ [b @ ''.imageset''])"
      using dir by (simp add: is_dir_def node_at_def)
    moreover have "\<exists>n1 n2 n3.
                 node_at (snd ?run) (d @ [b @ ''.imageset'', ''Contents.json''])
                   = Some (File (JsonDoc (JObj
                       [(''images'', JArr [manifest_entry ''1x'' n1, manifest_entry ''2x'' n2,
                                           manifest_entry ''3x'' n3]),
                        (''info'', JObj [(''author'', JStr ''xcode''), (''version'', JInt 1)])])))
                 \<and> (copy_fails f (s @ [b @ e]) (d @ [b @ ''.imageset'', b @ e]) \<longrightarrow> n1 = None)
                 \<and> (copy_fails f (s @ [b @ ''@2x'' @ e]) (d @ [b @ ''.imageset'', b @ ''@2x'' @ e])
                      \<longrightarrow> n2 = None)
                 \<and> (copy_fails f (s @ [b @ ''@3x'' @ e]) (d @ [b @ ''.imageset'', b @ ''@3x'' @ e])
                      \<longrightarrow> n3 = None)"
      using man en c1 c2 c3
      by (intro exI [of _ n1] exI [of _ n2] exI [of _ n3]) (simp add: node_at_def info_block_def)
    ultimately show ?thesis by (rule conjI)
  qed
  show ?thesis
    using m part by (intro exI [of _ "snd ?run"]) blast
qed

text \<open>
  The run on the sample project with the copy of \<^verbatim>\<open>logo@2x.png\<close> refused: status 0, an
  imageset for \<^verbatim>\<open>y\<close> as well, and the 2x entry of \<^verbatim>\<open>logo\<close> without a file name.
\<close>

theorem copy_failure_tolerated_witness:
  "wf_fs sample_tree
   \<and> only_copies_fail (copy_refused [''proj'', ''Sources'', ''Assets'', ''logo@2x.png''])
   \<and> copy_fails (copy_refused [''proj'', ''Sources'', ''Assets'', ''logo@2x.png''])
        [''proj'', ''Sources'', ''Assets'', ''logo@2x.png'']
        [''proj'', ''Sources'', ''Assets.xcassets'', ''logo.imageset'', ''logo@2x.png'']
   \<and> (\<exists>t. main sample_host (copy_refused [''proj'', ''Sources'', ''Assets'', ''logo@2x.png''])
            sample_tree = Some (0, t)
        \<and> is_dir t [''proj'', ''Sources'', ''Assets.xcassets'', ''y.imageset'']
        \<and> (\<exists>n1 n3. node_at t
              [''proj'', ''Sources'', ''Assets.xcassets'', ''logo.imageset'', ''Contents.json'']
            = Some (File (JsonDoc (JObj
                [(''images'', JArr [manifest_entry ''1x'' n1, manifest_entry ''2x'' None,
                                    manifest_entry ''3x'' n3]),
                 (''info'', JObj [(''author'', JStr ''xcode''), (''version'', JInt 1)])])))))"
proof -
  let ?p = "[''proj'', ''Sources'', ''Assets'', ''logo@2x.png'']"
  let ?f = "copy_refused ?p"
  let ?s = "[''proj'', ''Sources'', ''Assets'']"
  let ?d = "[''proj'', ''Sources'', ''Assets.xcassets'']"
  let ?l = "the (listdir ?f ?s sample_tree)"
  have wf: "wf_fs sample_tree" by code_simp
  have oc: "only_copies_fail ?f"
    by (simp add: only_copies_fail_def copy_refused_def no_faults_def)
  have wd: "is_dir sample_tree (cwd sample_host)" by code_simp
  have s: "locate (cwd sample_host) (fst (chosen_paths sample_host)) = Some ?s" by code_simp
  have d: "locate (cwd sample_host) (snd (chosen_paths sample_host)) = Some ?d" by code_simp
  have out: "\<not> prefix ?d ?s" "\<not> prefix ?s ?d" by simp_all
  have l: "listdir ?f ?s sample_tree = Some ?l"
    by (simp add: listdir_def is_dir_def node_at_def sample_tree_def copy_refused_def
        no_faults_def)
  have rm: "fst (safe_rmtree ?f ?d (script_dir sample_host @ [''Sources'']) sample_tree)"
    by code_simp
  have mk: "fst (makedirs ?f ?d
      (snd (safe_rmtree ?f ?d (script_dir sample_host @ [''Sources'']) sample_tree)))"
    by code_simp
  have gs: "sorted_groups ?l = [(''logo'', ''.png''), (''y'', ''.jpg'')]" by code_simp
  have cf: "copy_fails ?f ?p [''proj'', ''Sources'', ''Assets.xcassets'', ''logo.imageset'',
      ''logo@2x.png'']"
    by (simp add: copy_refused_def)
  from copy_failure_tolerated [OF wf oc wd s d out l rm mk]
  obtain t where t: "main sample_host ?f sample_tree = Some (0, t)
       \<and> (\<forall>b e. (b, e) \<in> set (sorted_groups ?l)
                 \<and> (\<forall>e'. (b, e') \<in> set (sorted_groups ?l) \<longrightarrow> e' = e) \<longrightarrow>
            is_dir t (?d @ [b @ ''.imageset''])
            \<and> (\<exists>n1 n2 n3.
                 node_at t (?d @ [b @ ''.imageset'', ''Contents.json''])
                   = Some (File (JsonDoc (JObj
                       [(''images'', JArr [manifest_entry ''1x'' n1, manifest_entry ''2x'' n2,
                                           manifest_entry ''3x'' n3]),
                        (''info'', JObj [(''author'', JStr ''xcode''), (''version'', JInt 1)])])))
                 \<and> (copy_fails ?f (?s @ [b @ e]) (?d @ [b @ ''.imageset'', b @ e]) \<longrightarrow> n1 = None)
                 \<and> (copy_fails ?f (?s @ [b @ ''@2x'' @ e]) (?d @ [b @ ''.imageset'', b @ ''@2x'' @ e])
                      \<longrightarrow> n2 = None)
                 \<and> (copy_fails ?f (?s @ [b @ ''@3x'' @ e]) (?d @ [b @ ''.imageset'', b @ ''@3x'' @ e])
                      \<longrightarrow> n3 = None)))"
    ..
  have m: "main sample_host ?f sample_tree = Some (0, t)" using t by (rule conjunct1)
  note each = t [THEN conjunct2, rule_format, OF conjI]
  have y1: "(''y'', ''.jpg'') \<in> set (sorted_groups ?l)" by (simp add: gs)
  have y2: "\<forall>e'. (''y'', e') \<in> set (sorted_groups ?l) \<longrightarrow> e' = ''.jpg''" by (simp add: gs)
  have g1: "(''logo'', ''.png'') \<in> set (sorted_groups ?l)" by (simp add: gs)
  have g2: "\<forall>e'. (''logo'', e') \<in> set (sorted_groups ?l) \<longrightarrow> e' = ''.png''" by (simp add: gs)
  have b: "is_dir t [''proj'', ''Sources'', ''Assets.xcassets'', ''y.imageset'']"
    using each [OF y1 y2] by simp
  have c: "\<exists>n1 n3. node_at t
          [''proj'', ''Sources'', ''Assets.xcassets'', ''logo.imageset'', ''Contents.json'']
        = Some (File (JsonDoc (JObj
            [(''images'', JArr [manifest_entry ''1x'' n1, manifest_entry ''2x'' None,
                                manifest_entry ''3x'' n3]),
             (''info'', JObj [(''author'', JStr ''xcode''), (''version'', JInt 1)])])))"
    using each [OF g1 g2] cf by force
  show ?thesis using wf oc cf m b c by blast
qed

text \<open>
  Claim C4, amended: the listing is filtered by name alone. A pair is among the groups
  exactly when it is the group of some entry of the source directory, of whatever kind,
  whose extension lowers to \<^verbatim>\<open>.png\<close>, \<^verbatim>\<open>.jpg\<close> or \<^verbatim>\<open>.jpeg\<close>; every other entry gives
  rise to no group.
\<close>

theorem grouped_by_name_alone:
  assumes "listdir f source_dir fs = Some listing"
  shows "g \<in> set (sorted_groups listing) \<longleftrightarrow>
     (\<exists>n. exists fs (source_dir @ [n])
          \<and> lower (suffix_of n) \<in> {''.png'', ''.jpg'', ''.jpeg''}
          \<and> g = group_of n)"
  using listdir_mem [OF assms]
  by (simp add: sorted_groups_props(2) base_names_iff is_image_name_def image_extensions_def
      exists_def node_at_def)

text \<open>
  In the project with the odd names, the subdirectory \<^verbatim>\<open>icons.png\<close> is an entry with an
  image extension, so its group is among those built.
\<close>

theorem grouped_by_name_alone_witness:
  "is_dir odd_tree [''proj'', ''Sources'', ''Assets'', ''icons.png'']
   \<and> (''icons'', ''.png'') \<in> set (sorted_groups
        (the (listdir no_faults [''proj'', ''Sources'', ''Assets''] odd_tree)))"
proof -
  let ?s = "[''proj'', ''Sources'', ''Assets'']"
  have l: "listdir no_faults ?s odd_tree = Some (the (listdir no_faults ?s odd_tree))"
    by (simp add: listdir_def is_dir_def node_at_def odd_tree_def no_faults_def)
  have e: "exists odd_tree (?s @ [''icons.png''])"
    by (simp add: exists_def node_at_def odd_tree_def)
  have x: "lower (suffix_of ''icons.png'') \<in> {''.png'', ''.jpg'', ''.jpeg''}"
    by (simp add: suffix_of_def rfind_def lower_def lower_char_def)
  have g: "(''icons'', ''.png'') = group_of ''icons.png''"
    by (simp add: group_of_def suffix_of_def stem_def rfind_def endswith_def)
  have dir: "is_dir odd_tree [''proj'', ''Sources'', ''Assets'', ''icons.png'']"
    by (simp add: is_dir_def node_at_def odd_tree_def)
  have "(''icons'', ''.png'') \<in> set (sorted_groups (the (listdir no_faults ?s odd_tree)))"
    using grouped_by_name_alone [OF l, of "(''icons'', ''.png'')"] e x g by blast
  with dir show ?thesis by simp
qed

end
